theory Spec2Isabelle
  imports Main "HOL-Library.Word"
begin

unbundle bit_operations_syntax

section \<open>Common types\<close>

text \<open>
  A shallow embedding of the parts of liblsdj that the specification talks about:
  the table command accessors, the block codec of \<^verbatim>\<open>compression.c\<close>, the save
  reader of \<^verbatim>\<open>sav.c\<close> and the song (de)serializer of \<^verbatim>\<open>song.c\<close>.
  Bytes are 8-bit words. Every way a C function can stop without a result
  (an error message, a failed \<^verbatim>\<open>assert\<close>, an access outside an array) is a value
  of the type \<open>lsdj_error\<close>.
\<close>

type_synonym byte = "8 word"

datatype lsdj_error =
    Error string
  | SizeMismatch int
  | AssertionFailed string
  | OutOfBounds string

section \<open>Table command accessors (table.c)\<close>

text \<open>
  In \<^verbatim>\<open>table.c\<close> a song is the raw 32 KiB buffer \<^verbatim>\<open>song->bytes\<close>
  (\<^verbatim>\<open>song_buffer.h\<close>: \<^verbatim>\<open>LSDJ_SONG_BUFFER_BYTES_COUNT = 0x8000\<close>).
\<close>

type_synonym song_bytes = "byte list"

definition LSDJ_SONG_BUFFER_BYTES_COUNT :: nat where
  "LSDJ_SONG_BUFFER_BYTES_COUNT = 0x8000"

definition LSDJ_TABLE_LENGTH :: nat where
  \<comment> \<open>Modelled from the spec: the macro lives in \<^verbatim>\<open>table.h\<close>, which is not part of
      the sources; a table has 16 steps.\<close>
  "LSDJ_TABLE_LENGTH = 16"

definition COMMAND1_OFFSET :: nat where "COMMAND1_OFFSET = 0x3680"
definition COMMAND2_OFFSET :: nat where "COMMAND2_OFFSET = 0x3a80"
definition CONTENT_LENGTH :: nat where "CONTENT_LENGTH = 512"

definition lsdj_song_get_format_version :: "song_bytes \<Rightarrow> byte" where
  \<comment> \<open>Modelled from the spec: for the buffer representation the accessor is not part
      of the sources; the format version is the byte at the final offset \<^verbatim>\<open>0x7FFF\<close>.\<close>
  "lsdj_song_get_format_version song = song ! 0x7FFF"

text \<open>
  \<^verbatim>\<open>lsdj_command\<close> is a C enum whose declaration (\<^verbatim>\<open>command.h\<close>) is not part of
  the sources. A command is modelled by its ordinal, and the ordinal of
  \<^verbatim>\<open>LSDJ_COMMAND_B\<close> is the parameter \<open>cmdB\<close> of both accessors. The setter
  returns the C \<^verbatim>\<open>bool\<close> together with the updated buffer.
\<close>

definition lsdj_table_set_command1 ::
  "nat \<Rightarrow> song_bytes \<Rightarrow> byte \<Rightarrow> byte \<Rightarrow> nat \<Rightarrow> lsdj_error + (bool \<times> song_bytes)" where
  "lsdj_table_set_command1 cmdB song table step command =
     (if lsdj_song_get_format_version song \<ge> 8 then
        (let b = (if command = cmdB then (1::byte)
                  else if command > 1 then of_nat command + 1
                  else of_nat command);
             index = unat table * LSDJ_TABLE_LENGTH + unat step
         in if \<not> index \<le> CONTENT_LENGTH then Inl (AssertionFailed ''index <= CONTENT_LENGTH'')
            else Inr (True, song[COMMAND1_OFFSET + index := b]))
      else if command = cmdB then Inr (False, song)
      else
        (let index = unat table * LSDJ_TABLE_LENGTH + unat step
         in if \<not> index \<le> CONTENT_LENGTH then Inl (AssertionFailed ''index <= CONTENT_LENGTH'')
            else Inr (True, song[COMMAND1_OFFSET + index := of_nat command])))"

definition lsdj_table_get_command1 ::
  "nat \<Rightarrow> song_bytes \<Rightarrow> byte \<Rightarrow> byte \<Rightarrow> lsdj_error + nat" where
  "lsdj_table_get_command1 cmdB song table step =
     (if lsdj_song_get_format_version song \<ge> 8 then
        (let index = unat table * LSDJ_TABLE_LENGTH + unat step
         in if \<not> index \<le> COMMAND1_OFFSET then Inl (AssertionFailed ''index <= COMMAND1_OFFSET'')
            else
              (let b = song ! (COMMAND2_OFFSET + index)
               in if b > 1 then Inr (unat b - 1)
                  else if b = 1 then Inr cmdB
                  else Inr (unat b)))
      else
        (let index = unat table * LSDJ_TABLE_LENGTH + unat step
         in if \<not> index \<le> COMMAND2_OFFSET then Inl (AssertionFailed ''index <= COMMAND2_OFFSET'')
            else Inr (unat (song ! (COMMAND1_OFFSET + index)))))"

definition v8_song :: song_bytes where
  \<comment> \<open>A 32 KiB buffer of zero bytes whose format version byte is 8.\<close>
  "v8_song = replicate 0x7FFF 0 @ [8]"

section \<open>Byte streams (vio)\<close>

text \<open>
  \<^verbatim>\<open>compression.c\<close> reads and writes through \<^verbatim>\<open>lsdj_vio_t\<close>, whose functions
  (\<^verbatim>\<open>vio.h\<close>) are not part of the sources. The stream is the in-memory one of
  the specification: a byte slice of fixed size and a position. An operation
  that would leave the slice returns \<open>None\<close> (the C \<^verbatim>\<open>false\<close>). The optional
  byte counters of the C functions only count and are left out.
\<close>

record vio =
  buf :: "byte list"
  pos :: nat

definition lsdj_vio_tell :: "vio \<Rightarrow> int" where
  \<comment> \<open>Modelled from the spec: the stream functions are missing; tell is the position.\<close>
  "lsdj_vio_tell v = int (pos v)"

definition lsdj_vio_seek :: "vio \<Rightarrow> int \<Rightarrow> vio option" where
  \<comment> \<open>Modelled from the spec: the stream functions are missing; an absolute seek
      (\<^verbatim>\<open>SEEK_SET\<close>) to a position of the slice or its end.\<close>
  "lsdj_vio_seek v target =
     (if 0 \<le> target \<and> target \<le> int (length (buf v)) then Some (v\<lparr>pos := nat target\<rparr>) else None)"

definition lsdj_vio_read_byte :: "vio \<Rightarrow> (byte \<times> vio) option" where
  \<comment> \<open>Modelled from the spec: the stream functions are missing; a short read fails.\<close>
  "lsdj_vio_read_byte v =
     (if pos v < length (buf v) then Some (buf v ! pos v, v\<lparr>pos := pos v + 1\<rparr>) else None)"

definition lsdj_vio_write :: "vio \<Rightarrow> byte list \<Rightarrow> vio option" where
  \<comment> \<open>Modelled from the spec: the stream functions are missing; the bytes overwrite
      the slice at the position, a write past its end fails.\<close>
  "lsdj_vio_write v bs =
     (if pos v + length bs \<le> length (buf v)
      then Some (v\<lparr>buf := take (pos v) (buf v) @ bs @ drop (pos v + length bs) (buf v),
                    pos := pos v + length bs\<rparr>)
      else None)"

definition lsdj_vio_write_byte :: "vio \<Rightarrow> byte \<Rightarrow> vio option" where
  "lsdj_vio_write_byte v b = lsdj_vio_write v [b]"

definition lsdj_vio_write_repeat :: "vio \<Rightarrow> byte list \<Rightarrow> nat \<Rightarrow> vio option" where
  "lsdj_vio_write_repeat v bs count = lsdj_vio_write v (concat (replicate count bs))"

section \<open>The block codec (compression.c)\<close>

definition RUN_LENGTH_ENCODING_BYTE :: byte where "RUN_LENGTH_ENCODING_BYTE = 0xC0"
definition SPECIAL_ACTION_BYTE :: byte where "SPECIAL_ACTION_BYTE = 0xE0"
definition LSDJ_DEFAULT_WAVE_BYTE :: byte where "LSDJ_DEFAULT_WAVE_BYTE = 0xF0"
definition LSDJ_DEFAULT_INSTRUMENT_BYTE :: byte where "LSDJ_DEFAULT_INSTRUMENT_BYTE = 0xF1"

definition LSDJ_DEFAULT_WAVE :: "byte list" where
  "LSDJ_DEFAULT_WAVE =
     [0x8E, 0xCD, 0xCC, 0xBB, 0xAA, 0xA9, 0x99, 0x88, 0x87, 0x76, 0x66, 0x55, 0x54, 0x43, 0x32, 0x31]"

definition LSDJ_DEFAULT_INSTRUMENT :: "byte list" where
  "LSDJ_DEFAULT_INSTRUMENT =
     [0xA8, 0x00, 0x00, 0xFF, 0x00, 0x00, 0x03, 0x00, 0x00, 0xD0, 0x00, 0x00, 0x00, 0xF3, 0x00, 0x00]"

text \<open>
  The macros of \<^verbatim>\<open>compression.h\<close>, \<^verbatim>\<open>sav.h\<close> and \<^verbatim>\<open>song.h\<close> are not part of the
  sources. Block size and count are the ones \<^verbatim>\<open>sav.c\<close> declares (\<^verbatim>\<open>0x200\<close>, 191),
  the song size is the one of \<^verbatim>\<open>song_buffer.h\<close>, the end-of-stream index is the
  specification's \<^verbatim>\<open>0xFF\<close>. The value of \<^verbatim>\<open>LSDJ_NO_NEXT_BLOCK_INDEX\<close> is written
  nowhere; it is the parameter \<open>nnb\<close> of the decompression functions.
\<close>

definition LSDJ_BLOCK_SIZE :: nat where
  \<comment> \<open>Modelled from the spec: the macro is missing; a block has 512 bytes.\<close>
  "LSDJ_BLOCK_SIZE = 0x200"

definition LSDJ_BLOCK_COUNT :: nat where
  \<comment> \<open>Modelled from the spec: the macro is missing; a save has 191 blocks.\<close>
  "LSDJ_BLOCK_COUNT = 191"

definition LSDJ_SONG_BYTE_COUNT :: nat where
  \<comment> \<open>Modelled from the spec: the macro is missing; a song image has 32,768 bytes.\<close>
  "LSDJ_SONG_BYTE_COUNT = 0x8000"

definition LSDJ_END_OF_FILE_BLOCK_INDEX :: nat where
  \<comment> \<open>Modelled from the spec: the macro is missing; \<^verbatim>\<open>0xFF\<close> ends the stream.\<close>
  "LSDJ_END_OF_FILE_BLOCK_INDEX = 0xFF"

subsection \<open>Decompression\<close>

definition decompress_rle_byte :: "vio \<Rightarrow> vio \<Rightarrow> lsdj_error + (vio \<times> vio)" where
  "decompress_rle_byte rvio wvio =
     (case lsdj_vio_read_byte rvio of
        None \<Rightarrow> Inl (Error ''could not read RLE byte'')
      | Some (byte, rvio1) \<Rightarrow>
          if byte = RUN_LENGTH_ENCODING_BYTE then
            (case lsdj_vio_write_byte wvio byte of
               None \<Rightarrow> Inl (Error ''could not write RLE byte'')
             | Some wvio1 \<Rightarrow> Inr (rvio1, wvio1))
          else
            (case lsdj_vio_read_byte rvio1 of
               None \<Rightarrow> Inl (Error ''could not read RLE count byte'')
             | Some (count, rvio2) \<Rightarrow>
                 (case lsdj_vio_write_repeat wvio [byte] (unat count) of
                    None \<Rightarrow> Inl (Error ''could not write byte for RLE expansion'')
                  | Some wvio1 \<Rightarrow> Inr (rvio2, wvio1))))"

definition decompress_default_wave_byte :: "vio \<Rightarrow> vio \<Rightarrow> lsdj_error + (vio \<times> vio)" where
  "decompress_default_wave_byte rvio wvio =
     (case lsdj_vio_read_byte rvio of
        None \<Rightarrow> Inl (Error ''could not read default wave count byte'')
      | Some (count, rvio1) \<Rightarrow>
          (case lsdj_vio_write_repeat wvio LSDJ_DEFAULT_WAVE (unat count) of
             None \<Rightarrow> Inl (Error ''could not write default wave byte'')
           | Some wvio1 \<Rightarrow> Inr (rvio1, wvio1)))"

definition decompress_default_instrument_byte :: "vio \<Rightarrow> vio \<Rightarrow> lsdj_error + (vio \<times> vio)" where
  "decompress_default_instrument_byte rvio wvio =
     (case lsdj_vio_read_byte rvio of
        None \<Rightarrow> Inl (Error ''could not read default instrument count byte'')
      | Some (count, rvio1) \<Rightarrow>
          (case lsdj_vio_write_repeat wvio LSDJ_DEFAULT_INSTRUMENT (unat count) of
             None \<Rightarrow> Inl (Error ''could not write default instrument byte'')
           | Some wvio1 \<Rightarrow> Inr (rvio1, wvio1)))"

text \<open>
  The functions that take \<^verbatim>\<open>unsigned short* nextBlockIndex\<close> return its final
  value as the third component of the result.
\<close>

definition decompress_sa_byte :: "nat \<Rightarrow> vio \<Rightarrow> vio \<Rightarrow> lsdj_error + (vio \<times> vio \<times> nat)" where
  "decompress_sa_byte nnb rvio wvio =
     (case lsdj_vio_read_byte rvio of
        None \<Rightarrow> Inl (Error ''could not read SA byte'')
      | Some (byte, rvio1) \<Rightarrow>
          if byte = SPECIAL_ACTION_BYTE then
            (case lsdj_vio_write_byte wvio byte of
               None \<Rightarrow> Inl (Error ''could not write SA byte'')
             | Some wvio1 \<Rightarrow> Inr (rvio1, wvio1, nnb))
          else if byte = LSDJ_DEFAULT_WAVE_BYTE then
            (case decompress_default_wave_byte rvio1 wvio of
               Inl e \<Rightarrow> Inl e
             | Inr (rvio2, wvio1) \<Rightarrow> Inr (rvio2, wvio1, nnb))
          else if byte = LSDJ_DEFAULT_INSTRUMENT_BYTE then
            (case decompress_default_instrument_byte rvio1 wvio of
               Inl e \<Rightarrow> Inl e
             | Inr (rvio2, wvio1) \<Rightarrow> Inr (rvio2, wvio1, nnb))
          else Inr (rvio1, wvio, unat byte))"

definition lsdj_decompress_step :: "nat \<Rightarrow> vio \<Rightarrow> vio \<Rightarrow> lsdj_error + (vio \<times> vio \<times> nat)" where
  "lsdj_decompress_step nnb rvio wvio =
     (case lsdj_vio_read_byte rvio of
        None \<Rightarrow> Inl (Error ''could not read byte for decompression step'')
      | Some (byte, rvio1) \<Rightarrow>
          if byte = RUN_LENGTH_ENCODING_BYTE then
            (case decompress_rle_byte rvio1 wvio of
               Inl e \<Rightarrow> Inl e
             | Inr (rvio2, wvio1) \<Rightarrow> Inr (rvio2, wvio1, nnb))
          else if byte = SPECIAL_ACTION_BYTE then decompress_sa_byte nnb rvio1 wvio
          else
            (case lsdj_vio_write_byte wvio byte of
               None \<Rightarrow> Inl (Error ''could not write decompression byte'')
             | Some wvio1 \<Rightarrow> Inr (rvio1, wvio1, nnb)))"

lemma lsdj_decompress_step_advances:
  assumes "lsdj_decompress_step nnb rvio wvio = Inr (r, w, nbi)"
  shows "buf r = buf rvio \<and> pos rvio < pos r \<and> pos r \<le> length (buf rvio)"
  using assms
  by (auto simp: lsdj_decompress_step_def decompress_rle_byte_def decompress_sa_byte_def
      decompress_default_wave_byte_def decompress_default_instrument_byte_def
      lsdj_vio_read_byte_def
      split: option.splits if_splits sum.splits prod.splits)

text \<open>The \<^verbatim>\<open>do ... while\<close> loop of \<^verbatim>\<open>lsdj_decompress_block\<close>.\<close>

function decompress_block_steps :: "nat \<Rightarrow> vio \<Rightarrow> vio \<Rightarrow> lsdj_error + (vio \<times> vio \<times> nat)" where
  "decompress_block_steps nnb rvio wvio =
     (case lsdj_decompress_step nnb rvio wvio of
        Inl e \<Rightarrow> Inl e
      | Inr (r, w, nbi) \<Rightarrow>
          if nbi = nnb then decompress_block_steps nnb r w else Inr (r, w, nbi))"
  by pat_completeness auto
termination
proof (relation "measure (\<lambda>(nnb, rvio, wvio). length (buf rvio) - pos rvio)")
  show "wf (measure (\<lambda>(nnb, rvio, wvio). length (buf rvio) - pos rvio))"
    by simp
next
  fix nnb :: nat and rvio wvio :: vio and x2 r y w nbi
  assume "lsdj_decompress_step nnb rvio wvio = Inr x2" "(r, y) = x2" "(w, nbi) = y"
  then have "lsdj_decompress_step nnb rvio wvio = Inr (r, w, nbi)"
    by simp
  from lsdj_decompress_step_advances [OF this]
  show "((nnb, r, w), nnb, rvio, wvio) \<in> measure (\<lambda>(nnb, rvio, wvio). length (buf rvio) - pos rvio)"
    by auto
qed

declare decompress_block_steps.simps [simp del]

definition lsdj_decompress_block :: "nat \<Rightarrow> vio \<Rightarrow> vio \<Rightarrow> lsdj_error + (vio \<times> vio \<times> nat)" where
  "lsdj_decompress_block nnb rvio wvio =
     (let start = lsdj_vio_tell rvio
      in case decompress_block_steps nnb rvio wvio of
           Inl e \<Rightarrow> Inl e
         | Inr (r, w, nbi) \<Rightarrow>
             (case lsdj_vio_seek r (start + int LSDJ_BLOCK_SIZE) of
                None \<Rightarrow> Inl (Error ''could not seek to the end of a block'')
              | Some r' \<Rightarrow> Inr (r', w, nbi)))"

text \<open>
  The \<^verbatim>\<open>do ... while\<close> loop of \<^verbatim>\<open>lsdj_decompress\<close>. A chain of block jumps can
  come back to a block it has left, so the loop need not end: \<open>None\<close> is the
  run that never returns.
\<close>

partial_function (option) decompress_blocks ::
  "nat \<Rightarrow> int \<Rightarrow> bool \<Rightarrow> vio \<Rightarrow> vio \<Rightarrow> (lsdj_error + (vio \<times> vio)) option" where
  "decompress_blocks nnb firstBlockPosition followBlockJumps rvio wvio =
     (case lsdj_decompress_block nnb rvio wvio of
        Inl e \<Rightarrow> Some (Inl e)
      | Inr (r, w, nextBlockIndex) \<Rightarrow>
          if nextBlockIndex = nnb
          then Some (Inl (AssertionFailed ''nextBlockIndex != LSDJ_NO_NEXT_BLOCK_INDEX''))
          else if nextBlockIndex \<noteq> LSDJ_END_OF_FILE_BLOCK_INDEX then
            (if followBlockJumps then
               (case lsdj_vio_seek r (firstBlockPosition
                        + int (unat ((of_nat nextBlockIndex :: byte) - 1)) * int LSDJ_BLOCK_SIZE) of
                  None \<Rightarrow> Some (Inl (Error ''could not move to next block''))
                | Some r' \<Rightarrow> decompress_blocks nnb firstBlockPosition followBlockJumps r' w)
             else decompress_blocks nnb firstBlockPosition followBlockJumps r w)
          else Some (Inr (r, w)))"

declare decompress_blocks.simps [code]

definition lsdj_decompress ::
  "nat \<Rightarrow> vio \<Rightarrow> vio \<Rightarrow> int \<Rightarrow> bool \<Rightarrow> (lsdj_error + (vio \<times> vio)) option" where
  "lsdj_decompress nnb rvio wvio firstBlockPosition followBlockJumps =
     (let writeStart = lsdj_vio_tell wvio
      in case decompress_blocks nnb firstBlockPosition followBlockJumps rvio wvio of
           None \<Rightarrow> None
         | Some (Inl e) \<Rightarrow> Some (Inl e)
         | Some (Inr (r, w)) \<Rightarrow>
             if (lsdj_vio_tell r - firstBlockPosition) mod int LSDJ_BLOCK_SIZE \<noteq> 0
             then Some (Inl (AssertionFailed
                    ''(lsdj_vio_tell(rvio) - firstBlockPosition) % LSDJ_BLOCK_SIZE == 0''))
             else
               (let writeEnd = lsdj_vio_tell w
                in if writeEnd = -1 then Some (Inl (Error ''could not tell compression end''))
                   else
                     (let readSize = writeEnd - writeStart
                      in if readSize \<noteq> int LSDJ_SONG_BYTE_COUNT
                         then Some (Inl (SizeMismatch readSize))
                         else Some (Inr (r, w)))))"

subsection \<open>Compression\<close>

text \<open>
  The compressor walks the input with the pointer \<^verbatim>\<open>read\<close> up to
  \<^verbatim>\<open>end = data + LSDJ_SONG_BYTE_COUNT\<close>. The model keeps the bytes from
  \<^verbatim>\<open>read\<close> to \<^verbatim>\<open>end\<close> as the list \<open>rd\<close>: \<^verbatim>\<open>read + n < end\<close> is
  \<open>n < length rd\<close> and \<^verbatim>\<open>memcmp(read, c, 16) == 0\<close> is \<open>take 16 rd = c\<close>.
  The 8-bit counters stop at \<^verbatim>\<open>0xFF\<close> and never wrap; they are naturals.
\<close>

function count_default :: "byte list \<Rightarrow> byte list \<Rightarrow> nat \<Rightarrow> nat \<times> byte list" where
  "count_default c rd count =
     (if 16 < length rd \<and> take 16 rd = c \<and> count \<noteq> 0xFF
      then count_default c (drop 16 rd) (count + 1)
      else (count, rd))"
  by pat_completeness auto
termination
  by (relation "measure (\<lambda>(c, rd, count). length rd)") auto

declare count_default.simps [simp del]

fun count_run :: "byte \<Rightarrow> byte list \<Rightarrow> nat \<Rightarrow> nat \<times> byte list" where
  "count_run c [] count = (count, [])"
| "count_run c (x # rd) count =
     (if x = c \<and> count \<noteq> 0xFF then count_run c rd (count + 1) else (count, x # rd))"

text \<open>
  One pass of the detection part of the loop body: the event (the first
  \<^verbatim>\<open>eventSize\<close> bytes of \<^verbatim>\<open>nextEvent\<close>) and the input left after it. The loop
  guard \<^verbatim>\<open>read < end\<close> keeps the input non-empty.
\<close>

definition next_event :: "byte list \<Rightarrow> lsdj_error + (byte list \<times> byte list)" where
  "next_event rd =
     (let (defaultWaveLengthCount, rd1) = count_default LSDJ_DEFAULT_WAVE rd 0
      in if defaultWaveLengthCount > 0
         then Inr ([SPECIAL_ACTION_BYTE, LSDJ_DEFAULT_WAVE_BYTE, of_nat defaultWaveLengthCount], rd1)
         else
           (let (defaultInstrumentLengthCount, rd2) = count_default LSDJ_DEFAULT_INSTRUMENT rd1 0
            in if defaultInstrumentLengthCount > 0
               then Inr ([SPECIAL_ACTION_BYTE, LSDJ_DEFAULT_INSTRUMENT_BYTE,
                          of_nat defaultInstrumentLengthCount], rd2)
               else
                 (let c = hd rd2
                  in if c = RUN_LENGTH_ENCODING_BYTE
                     then Inr ([RUN_LENGTH_ENCODING_BYTE, RUN_LENGTH_ENCODING_BYTE], tl rd2)
                     else if c = SPECIAL_ACTION_BYTE
                     then Inr ([SPECIAL_ACTION_BYTE, SPECIAL_ACTION_BYTE], tl rd2)
                     else if 3 < length rd2 \<and> rd2 ! 1 = c \<and> rd2 ! 2 = c \<and> rd2 ! 3 = c
                     then
                       (let (count, rd3) = count_run c rd2 0
                        in if length rd2 - length rd3 \<noteq> count
                           then Inl (AssertionFailed ''(read - beg) == count'')
                           else Inr ([RUN_LENGTH_ENCODING_BYTE, c, of_nat count], rd3))
                     else Inr ([c], tl rd2))))"

function pad_block :: "nat \<Rightarrow> vio \<Rightarrow> lsdj_error + (nat \<times> vio)" where
  "pad_block currentBlockSize wvio =
     (if currentBlockSize < LSDJ_BLOCK_SIZE then
        (case lsdj_vio_write_byte wvio 0 of
           None \<Rightarrow> Inl (Error ''could not write 0 for block padding'')
         | Some wvio1 \<Rightarrow> pad_block (currentBlockSize + 1) wvio1)
      else Inr (currentBlockSize, wvio))"
  by pat_completeness auto
termination
  by (relation "measure (\<lambda>(currentBlockSize, wvio). LSDJ_BLOCK_SIZE - currentBlockSize)") auto

declare pad_block.simps [simp del]

datatype emitted = RolledBack vio | Emitted nat nat vio

text \<open>
  The second half of the loop body: the block switch when the event does not
  fit, the roll-back when the blocks are used up, and the write of the event.
  \<^verbatim>\<open>currentBlock\<close> is an \<^verbatim>\<open>unsigned int\<close>. The result holds the new
  \<^verbatim>\<open>currentBlock\<close>, \<^verbatim>\<open>currentBlockSize\<close> and stream.
\<close>

definition compress_emit ::
  "byte list \<Rightarrow> nat \<Rightarrow> nat \<Rightarrow> int \<Rightarrow> vio \<Rightarrow> lsdj_error + emitted" where
  "compress_emit nextEvent currentBlock currentBlockSize writeStart wvio =
     (let write_event = (\<lambda>cb cbs w.
            case lsdj_vio_write w nextEvent of
              None \<Rightarrow> Inl (Error ''could not write event for compression'')
            | Some w1 \<Rightarrow> Inr (Emitted cb (cbs + length nextEvent) w1))
      in if currentBlockSize + length nextEvent + 2 \<ge> LSDJ_BLOCK_SIZE then
           (case lsdj_vio_write_byte wvio SPECIAL_ACTION_BYTE of
              None \<Rightarrow> Inl (Error ''could not write SA byte for next block command'')
            | Some w1 \<Rightarrow>
           (case lsdj_vio_write_byte w1 (of_nat (currentBlock + 1)) of
              None \<Rightarrow> Inl (Error ''could not write next block byte for compression'')
            | Some w2 \<Rightarrow>
           if \<not> currentBlockSize + 2 \<le> LSDJ_BLOCK_SIZE
           then Inl (AssertionFailed ''currentBlockSize <= LSDJ_BLOCK_SIZE'')
           else
           (case pad_block (currentBlockSize + 2) w2 of
              Inl e \<Rightarrow> Inl e
            | Inr (cbs, w3) \<Rightarrow>
           if cbs \<noteq> LSDJ_BLOCK_SIZE
           then Inl (Error ''block was not completely filled upon compression'')
           else
           (let cb = (currentBlock + 1) mod 2 ^ 32
            in if cb = LSDJ_BLOCK_COUNT + 1 then
                 (let p = lsdj_vio_tell w3
                  in case lsdj_vio_seek w3 writeStart of
                       None \<Rightarrow> Inl (Error
                         ''could not roll back after reaching max block count for compression'')
                     | Some w4 \<Rightarrow>
                    (case lsdj_vio_write_repeat w4 [0] (nat (p - writeStart)) of
                       None \<Rightarrow> Inl (Error
                         ''could not fill rolled back data with 0 for compression'')
                     | Some w5 \<Rightarrow>
                    (case lsdj_vio_seek w5 writeStart of
                       None \<Rightarrow> Inl (Error
                         ''could not fill roll back to start for compression roll back'')
                     | Some w6 \<Rightarrow> Inr (RolledBack w6))))
               else write_event cb 0 w3))))
         else write_event currentBlock currentBlockSize wvio)"

lemma count_default_length:
  "count_default c rd n = (m, rd') \<Longrightarrow>
     n \<le> m \<and> length rd' \<le> length rd \<and> (n < m \<longrightarrow> length rd' < length rd) \<and> (m = n \<longrightarrow> rd' = rd)"
proof (induction c rd n rule: count_default.induct)
  case (1 c rd count)
  show ?case
  proof (cases "16 < length rd \<and> take 16 rd = c \<and> count \<noteq> 0xFF")
    case True
    with "1.prems" have "count_default c (drop 16 rd) (count + 1) = (m, rd')"
      by (simp add: count_default.simps [of c rd count])
    from "1.IH" [OF True this] True show ?thesis by auto
  next
    case False
    with "1.prems" show ?thesis
      by (simp add: count_default.simps [of c rd count])
  qed
qed

lemma count_run_length:
  "count_run c rd n = (m, rd') \<Longrightarrow> length rd' + m = length rd + n \<and> n \<le> m"
  by (induction c rd n rule: count_run.induct) (auto split: if_splits)

lemma next_event_shorter:
  assumes "next_event rd = Inr (ev, rd')" and "rd \<noteq> []"
  shows "length rd' < length rd"
proof -
  obtain wc rd1 where w: "count_default LSDJ_DEFAULT_WAVE rd 0 = (wc, rd1)"
    by (cases "count_default LSDJ_DEFAULT_WAVE rd 0")
  obtain ic rd2 where i: "count_default LSDJ_DEFAULT_INSTRUMENT rd1 0 = (ic, rd2)"
    by (cases "count_default LSDJ_DEFAULT_INSTRUMENT rd1 0")
  obtain rc rd3 where r: "count_run (hd rd2) rd2 0 = (rc, rd3)"
    by (cases "count_run (hd rd2) rd2 0")
  note lw = count_default_length [OF w] and li = count_default_length [OF i]
    and lr = count_run_length [OF r]
  show ?thesis
  proof (cases "0 < wc")
    case True
    with assms w lw show ?thesis by (simp add: next_event_def)
  next
    case wc0: False
    then have rd1: "rd1 = rd"
      using lw by simp
    show ?thesis
    proof (cases "0 < ic")
      case True
      with assms w i wc0 li rd1 show ?thesis by (simp add: next_event_def)
    next
      case ic0: False
      then have rd2: "rd2 = rd"
        using li rd1 by simp
      from assms(2) obtain x xs where rd: "rd = x # xs" by (cases rd) auto
      have "0 < rc \<Longrightarrow> length rd3 < length rd"
        using lr rd2 by simp
      moreover have "rd ! 1 = x \<Longrightarrow> 3 < length rd \<Longrightarrow> 0 < rc"
        using r rd2 rd by (auto split: if_splits dest: count_run_length)
      ultimately show ?thesis
        using assms w i r wc0 ic0 rd2 rd
        by (auto simp: next_event_def Let_def split: if_splits)
    qed
  qed
qed

datatype compressed = Overflow vio | Finished nat nat vio

text \<open>
  The \<^verbatim>\<open>for\<close> loop of \<^verbatim>\<open>lsdj_compress\<close>: \<open>Overflow\<close> is the early
  \<^verbatim>\<open>return false\<close> after the roll-back, \<open>Finished\<close> the state at the loop exit.
\<close>

function compress_loop ::
  "byte list \<Rightarrow> nat \<Rightarrow> nat \<Rightarrow> int \<Rightarrow> vio \<Rightarrow> lsdj_error + compressed" where
  "compress_loop rd currentBlock currentBlockSize writeStart wvio =
     (if rd = [] then Inr (Finished currentBlock currentBlockSize wvio)
      else
        (case next_event rd of
           Inl e \<Rightarrow> Inl e
         | Inr (nextEvent, rd') \<Rightarrow>
             (case compress_emit nextEvent currentBlock currentBlockSize writeStart wvio of
                Inl e \<Rightarrow> Inl e
              | Inr (RolledBack w) \<Rightarrow> Inr (Overflow w)
              | Inr (Emitted cb cbs w) \<Rightarrow> compress_loop rd' cb cbs writeStart w)))"
  by pat_completeness auto
termination
proof (relation "measure (\<lambda>(rd, cb, cbs, ws, w). length rd)")
  show "wf (measure (\<lambda>(rd, cb, cbs, ws, w). length rd))"
    by simp
next
  fix rd :: "byte list" and currentBlock currentBlockSize :: nat and writeStart :: int
    and wvio :: vio and x2 nextEvent rd' x2a x2b cb cbs w
  assume "rd \<noteq> []" "next_event rd = Inr x2" "(nextEvent, rd') = x2"
  then have "next_event rd = Inr (nextEvent, rd')"
    by simp
  from next_event_shorter [OF this \<open>rd \<noteq> []\<close>]
  show "((rd', cb, cbs, writeStart, w), rd, currentBlock, currentBlockSize, writeStart, wvio)
      \<in> measure (\<lambda>(rd, cb, cbs, ws, w). length rd)"
    by simp
qed

declare compress_loop.simps [simp del]

definition compress_finish :: "nat \<Rightarrow> vio \<Rightarrow> lsdj_error + (bool \<times> vio)" where
  \<comment> \<open>The code of \<^verbatim>\<open>lsdj_compress\<close> after its loop: the end-of-stream marker and
      the padding of the last block.\<close>
  "compress_finish currentBlockSize wvio =
     (case lsdj_vio_write_byte wvio SPECIAL_ACTION_BYTE of
        None \<Rightarrow> Inl (Error ''could not write SA for EOF for compression'')
      | Some w1 \<Rightarrow>
     (case lsdj_vio_write_byte w1 (of_nat LSDJ_END_OF_FILE_BLOCK_INDEX) of
        None \<Rightarrow> Inl (Error ''could not write EOF for compression'')
      | Some w2 \<Rightarrow>
          if currentBlockSize > 0 then
            (case pad_block (currentBlockSize + 2) w2 of
               Inl e \<Rightarrow> Inl e
             | Inr (cbs, w3) \<Rightarrow> Inr (True, w3))
          else Inr (True, w2)))"

definition compress_from ::
  "byte list \<Rightarrow> nat \<Rightarrow> nat \<Rightarrow> int \<Rightarrow> vio \<Rightarrow> lsdj_error + (bool \<times> vio)" where
  \<comment> \<open>\<^verbatim>\<open>lsdj_compress\<close> from the head of its loop to its \<^verbatim>\<open>return\<close>.\<close>
  "compress_from rd currentBlock currentBlockSize writeStart wvio =
     (case compress_loop rd currentBlock currentBlockSize writeStart wvio of
        Inl e \<Rightarrow> Inl e
      | Inr (Overflow w) \<Rightarrow> Inr (False, w)
      | Inr (Finished cb cbs w) \<Rightarrow> compress_finish cbs w)"

text \<open>
  \<^verbatim>\<open>lsdj_compress\<close>: the C \<^verbatim>\<open>bool\<close> and the stream it leaves. \<open>Inl\<close> is a
  \<^verbatim>\<open>return false\<close> with an error message, \<open>Inr (False, _)\<close> one without.
\<close>

definition lsdj_compress :: "byte list \<Rightarrow> vio \<Rightarrow> nat \<Rightarrow> lsdj_error + (bool \<times> vio)" where
  "lsdj_compress data wvio blockOffset =
     (if blockOffset = LSDJ_BLOCK_COUNT + 1 then Inr (False, wvio)
      else
        (let writeStart = lsdj_vio_tell wvio
         in if writeStart = -1
            then Inl (Error ''could not tell write position on compression'')
            else compress_from (take LSDJ_SONG_BYTE_COUNT data) blockOffset 0 writeStart wvio))"

section \<open>Auxiliary notions for the proofs about the codec\<close>

text \<open>
  \<open>block_done\<close> is the body of the loop of \<^verbatim>\<open>lsdj_decompress\<close> after its call of
  \<^verbatim>\<open>lsdj_decompress_block\<close>, and \<open>resume\<close> is the run of \<^verbatim>\<open>lsdj_decompress\<close>
  from a position inside a block that started at \<open>start\<close>; \<open>reads r bs\<close> says that
  the bytes \<open>bs\<close> are the next ones of the stream \<open>r\<close>.
\<close>

definition block_done ::
  "nat \<Rightarrow> int \<Rightarrow> bool \<Rightarrow> vio \<Rightarrow> vio \<Rightarrow> nat \<Rightarrow> (lsdj_error + (vio \<times> vio)) option" where
  "block_done nnb fbp follow r w nbi =
     (if nbi = nnb
      then Some (Inl (AssertionFailed ''nextBlockIndex != LSDJ_NO_NEXT_BLOCK_INDEX''))
      else if nbi \<noteq> LSDJ_END_OF_FILE_BLOCK_INDEX then
        (if follow then
           (case lsdj_vio_seek r (fbp + int (unat ((of_nat nbi :: byte) - 1)) * int LSDJ_BLOCK_SIZE) of
              None \<Rightarrow> Some (Inl (Error ''could not move to next block''))
            | Some r' \<Rightarrow> decompress_blocks nnb fbp follow r' w)
         else decompress_blocks nnb fbp follow r w)
      else Some (Inr (r, w)))"

definition resume ::
  "nat \<Rightarrow> int \<Rightarrow> bool \<Rightarrow> nat \<Rightarrow> vio \<Rightarrow> vio \<Rightarrow> (lsdj_error + (vio \<times> vio)) option" where
  "resume nnb fbp follow start r w =
     (case decompress_block_steps nnb r w of
        Inl e \<Rightarrow> Some (Inl e)
      | Inr (r1, w1, nbi) \<Rightarrow>
          (case lsdj_vio_seek r1 (int start + int LSDJ_BLOCK_SIZE) of
             None \<Rightarrow> Some (Inl (Error ''could not seek to the end of a block''))
           | Some r2 \<Rightarrow> block_done nnb fbp follow r2 w1 nbi))"

definition reads :: "vio \<Rightarrow> byte list \<Rightarrow> bool" where
  "reads r bs = (pos r \<le> length (buf r) \<and> (\<exists>post. drop (pos r) (buf r) = bs @ post))"

section \<open>The save container (\<^verbatim>\<open>sav.c\<close>)\<close>

text \<open>
  \<^verbatim>\<open>sav.c\<close> is written against stream callbacks: \<^verbatim>\<open>read(ptr, count, user_data)\<close>
  fills \<^verbatim>\<open>count\<close> bytes at \<^verbatim>\<open>ptr\<close> and \<^verbatim>\<open>seek(offset, whence, user_data)\<close> moves the
  stream. A callback is a function on the state of the stream \<open>'u\<close>; \<open>read\<close>
  returns the bytes it stored at \<^verbatim>\<open>ptr\<close>. The C code ignores what the callbacks
  return.
\<close>

datatype whence = SEEK_SET | SEEK_CUR | SEEK_END

type_synonym 'u lsdj_vio_read_t = "nat \<Rightarrow> 'u \<Rightarrow> byte list \<times> 'u"
type_synonym 'u lsdj_vio_seek_t = "int \<Rightarrow> whence \<Rightarrow> 'u \<Rightarrow> 'u"

definition SAV_PROJECT_COUNT :: nat where
  \<comment> \<open>Modelled from the spec: \<^verbatim>\<open>sav.h\<close> is missing; a save has 32 project slots.\<close>
  "SAV_PROJECT_COUNT = 32"

definition SONG_DECOMPRESSED_SIZE :: nat where
  \<comment> \<open>Modelled from the spec: \<^verbatim>\<open>compression.h\<close> of this version is missing; a song
      image has 32 KiB.\<close>
  "SONG_DECOMPRESSED_SIZE = 0x8000"

definition HEADER_START :: nat where
  "HEADER_START = SONG_DECOMPRESSED_SIZE"

definition BLOCK_COUNT :: nat where
  "BLOCK_COUNT = 191"

definition BLOCK_SIZE :: nat where
  "BLOCK_SIZE = 0x200"

text \<open>
  Modelled from the spec: \<^verbatim>\<open>lsdj_project_t\<close> and \<^verbatim>\<open>lsdj_sav_t\<close> of \<^verbatim>\<open>sav.h\<close> are
  missing. A project has its 8-byte name, its version byte and a song pointer
  (\<open>None\<close> is \<^verbatim>\<open>NULL\<close>); a save has the working song, the project slots and the
  index of the active project. \<open>'song\<close> is \<^verbatim>\<open>lsdj_song_t\<close>.
\<close>

record 'song lsdj_project_t =
  proj_name :: "byte list"
  proj_version :: byte
  proj_song :: "'song option"

record 'song lsdj_sav_t =
  sav_song :: 'song
  sav_projects :: "'song lsdj_project_t list"
  sav_active_project :: byte

record header_t =
  hdr_project_names :: "byte list"
  hdr_versions :: "byte list"
  hdr_empty :: "byte list"
  hdr_init :: "byte list"
  hdr_active_project :: byte

definition sizeof_header_t :: nat where
  "sizeof_header_t = SAV_PROJECT_COUNT * 8 + SAV_PROJECT_COUNT * 1 + 30 + 2 + 1"

definition header_of :: "byte list \<Rightarrow> header_t" where
  \<comment> \<open>The bytes of a \<^verbatim>\<open>header_t\<close> seen through its fields (all of them are
      \<^verbatim>\<open>char\<close> arrays, so the struct has no padding).\<close>
  "header_of bs =
     \<lparr>hdr_project_names = take (SAV_PROJECT_COUNT * 8) bs,
      hdr_versions = take SAV_PROJECT_COUNT (drop (SAV_PROJECT_COUNT * 8) bs),
      hdr_empty = take 30 (drop (SAV_PROJECT_COUNT * 8 + SAV_PROJECT_COUNT) bs),
      hdr_init = take 2 (drop (SAV_PROJECT_COUNT * 8 + SAV_PROJECT_COUNT + 30) bs),
      hdr_active_project = bs ! (SAV_PROJECT_COUNT * 8 + SAV_PROJECT_COUNT + 30 + 2)\<rparr>"

text \<open>
  The loop of \<^verbatim>\<open>read_compressed_blocks\<close> over the block indices still to visit.
  \<open>decompress\<close> is \<^verbatim>\<open>lsdj_decompress(blocks, i, BLOCK_SIZE, data)\<close> and \<open>read_song\<close>
  is \<^verbatim>\<open>lsdj_read_song_from_memory(data, song, error)\<close> of this version of the
  library, neither of them in the sources at hand: they are parameters;
  \<open>read_song\<close> gives the song it filled in and the error it raised, if any.
  \<open>error_given\<close> says that the pointer \<^verbatim>\<open>error\<close> is not \<^verbatim>\<open>NULL\<close>, which is what
  \<^verbatim>\<open>if (error) return;\<close> tests; \<open>err\<close> is what \<^verbatim>\<open>*error\<close> holds. \<^verbatim>\<open>projects\<close> has
  \<^verbatim>\<open>SAV_PROJECT_COUNT\<close> entries: an owner byte beyond them makes the C code read
  outside the array, where the model stops with \<open>OutOfBounds\<close>.
\<close>

fun scan_blocks ::
  "(byte list \<Rightarrow> nat \<Rightarrow> nat \<Rightarrow> byte list) \<Rightarrow> (byte list \<Rightarrow> 'song \<times> lsdj_error option) \<Rightarrow> bool \<Rightarrow>
   byte list \<Rightarrow> byte list \<Rightarrow> nat list \<Rightarrow> 'song lsdj_project_t list \<Rightarrow> lsdj_error option \<Rightarrow>
   lsdj_error + ('song lsdj_project_t list \<times> lsdj_error option)" where
  "scan_blocks decompress read_song error_given blocks_alloc_table blocks [] projects err =
     Inr (projects, err)"
| "scan_blocks decompress read_song error_given blocks_alloc_table blocks (i # is) projects err =
     (let project = unat (blocks_alloc_table ! i)
      in if length projects \<le> project then Inl (OutOfBounds ''projects[project]'')
         else if proj_song (projects ! project) \<noteq> None
         then scan_blocks decompress read_song error_given blocks_alloc_table blocks is projects err
         else
           (let data = decompress blocks i BLOCK_SIZE;
                (song, e) = read_song data;
                projects' = projects[project := (projects ! project)\<lparr>proj_song := Some song\<rparr>];
                err' = (if error_given \<and> e \<noteq> None then e else err)
            in if error_given then Inr (projects', err')
               else scan_blocks decompress read_song error_given blocks_alloc_table blocks is
                      projects' err'))"

definition read_compressed_blocks ::
  "(byte list \<Rightarrow> nat \<Rightarrow> nat \<Rightarrow> byte list) \<Rightarrow> (byte list \<Rightarrow> 'song \<times> lsdj_error option) \<Rightarrow> bool \<Rightarrow>
   'u lsdj_vio_read_t \<Rightarrow> 'u \<Rightarrow> 'song lsdj_project_t list \<Rightarrow> lsdj_error option \<Rightarrow>
   lsdj_error + ('song lsdj_project_t list \<times> lsdj_error option \<times> 'u)" where
  "read_compressed_blocks decompress read_song error_given read user_data projects err =
     (let (blocks_alloc_table, u1) = read BLOCK_COUNT user_data;
          (blocks, u2) = read (BLOCK_COUNT * BLOCK_SIZE) u1
      in if length blocks_alloc_table \<noteq> BLOCK_COUNT
         then Inl (OutOfBounds ''blocks_alloc_table'')
         else
           (case scan_blocks decompress read_song error_given blocks_alloc_table blocks
                   [0..<BLOCK_COUNT] projects err of
              Inl e \<Rightarrow> Inl e
            | Inr (projects', err') \<Rightarrow> Inr (projects', err', u2)))"

definition init_check_message :: string where
  "init_check_message = ''SRAM initialization check wasn't 'jk'' @ [CHR 0x27]"

text \<open>
  \<^verbatim>\<open>lsdj_read_sav\<close> from the line after the check of the initialization
  characters to its end.
\<close>

definition read_sav_projects ::
  "(byte list \<Rightarrow> nat \<Rightarrow> nat \<Rightarrow> byte list) \<Rightarrow> (byte list \<Rightarrow> 'song \<times> lsdj_error option) \<Rightarrow>
   'u lsdj_vio_read_t \<Rightarrow> 'u lsdj_vio_seek_t \<Rightarrow> 'u \<Rightarrow> header_t \<Rightarrow> 'song lsdj_sav_t \<Rightarrow> bool \<Rightarrow>
   lsdj_error + ('song lsdj_sav_t \<times> lsdj_error option \<times> 'u)" where
  "read_sav_projects decompress read_song read seek user_data header sav error_given =
     (if length (sav_projects sav) \<noteq> SAV_PROJECT_COUNT then Inl (OutOfBounds ''sav->projects'')
      else
        (let sav1 = sav\<lparr>sav_projects :=
                      map (\<lambda>i. (sav_projects sav ! i)
                             \<lparr>proj_name := take 8 (drop (i * 8) (hdr_project_names header)),
                              proj_version := hdr_versions header ! i\<rparr>)
                        [0..<SAV_PROJECT_COUNT],
                    sav_active_project := hdr_active_project header\<rparr>
         in case read_compressed_blocks decompress read_song error_given read user_data
                   (sav_projects sav1) None of
              Inl e \<Rightarrow> Inl e
            | Inr (projects, err, u3) \<Rightarrow>
                if error_given then Inr (sav1\<lparr>sav_projects := projects\<rparr>, err, u3)
                else
                  (let u4 = seek 0 SEEK_SET u3;
                       (song_data, u5) = read SONG_DECOMPRESSED_SIZE u4;
                       (song, e) = read_song song_data
                   in Inr (sav1\<lparr>sav_projects := projects, sav_song := song\<rparr>, err, u5))))"

text \<open>
  \<^verbatim>\<open>lsdj_read_sav\<close>. A \<^verbatim>\<open>NULL\<close> callback or \<^verbatim>\<open>sav\<close> is \<open>None\<close>. \<open>Inl (Error m)\<close> is
  \<^verbatim>\<open>return lsdj_create_error(error, m)\<close>. A callback that stores fewer than
  \<^verbatim>\<open>sizeof(header)\<close> bytes leaves the rest of the C struct uninitialised, where
  the model stops with \<open>OutOfBounds\<close>.
\<close>

definition lsdj_read_sav ::
  "(byte list \<Rightarrow> nat \<Rightarrow> nat \<Rightarrow> byte list) \<Rightarrow> (byte list \<Rightarrow> 'song \<times> lsdj_error option) \<Rightarrow>
   'u lsdj_vio_read_t option \<Rightarrow> 'u lsdj_vio_seek_t option \<Rightarrow> 'u \<Rightarrow> 'song lsdj_sav_t option \<Rightarrow> bool \<Rightarrow>
   lsdj_error + ('song lsdj_sav_t \<times> lsdj_error option \<times> 'u)" where
  "lsdj_read_sav decompress read_song read seek user_data sav error_given =
     (case read of
        None \<Rightarrow> Inl (Error ''read is NULL'')
      | Some rd \<Rightarrow>
     (case seek of
        None \<Rightarrow> Inl (Error ''seek is NULL'')
      | Some sk \<Rightarrow>
     (case sav of
        None \<Rightarrow> Inl (Error ''sav is NULL'')
      | Some sv \<Rightarrow>
          (let u1 = sk (int HEADER_START) SEEK_SET user_data;
               (bytes, u2) = rd sizeof_header_t u1
           in if length bytes \<noteq> sizeof_header_t then Inl (OutOfBounds ''header'')
              else
                (let header = header_of bytes
                 in if hdr_init header ! 0 \<noteq> 0x6A \<or> hdr_init header ! 1 \<noteq> 0x6B
                    then Inl (Error init_check_message)
                    else read_sav_projects decompress read_song rd sk u2 header sv
                           error_given)))))"

text \<open>
  The memory stream of \<^verbatim>\<open>sav.c\<close>: \<open>mem_begin\<close> holds the \<open>mem_size\<close> bytes at
  \<^verbatim>\<open>begin\<close>, \<open>mem_cur\<close> is \<^verbatim>\<open>cur - begin\<close>. \<^verbatim>\<open>memcpy\<close> beyond the bytes is undefined
  in C; \<open>lsdj_mread\<close> delivers the bytes there are.
\<close>

record lsdj_memory_data_t =
  mem_begin :: "byte list"
  mem_cur :: int
  mem_size :: nat

definition lsdj_mread :: "lsdj_memory_data_t lsdj_vio_read_t" where
  "lsdj_mread count mem =
     (take count (drop (nat (mem_cur mem)) (mem_begin mem)),
      mem\<lparr>mem_cur := mem_cur mem + int count\<rparr>)"

definition lsdj_mseek :: "lsdj_memory_data_t lsdj_vio_seek_t" where
  "lsdj_mseek offset w mem =
     (case w of
        SEEK_SET \<Rightarrow> mem\<lparr>mem_cur := offset\<rparr>
      | SEEK_CUR \<Rightarrow> mem\<lparr>mem_cur := mem_cur mem + offset\<rparr>
      | SEEK_END \<Rightarrow> mem\<lparr>mem_cur := int (mem_size mem) + offset\<rparr>)"

definition lsdj_read_sav_from_memory ::
  "(byte list \<Rightarrow> nat \<Rightarrow> nat \<Rightarrow> byte list) \<Rightarrow> (byte list \<Rightarrow> 'song \<times> lsdj_error option) \<Rightarrow>
   byte list option \<Rightarrow> nat \<Rightarrow> 'song lsdj_sav_t option \<Rightarrow> bool \<Rightarrow>
   lsdj_error + ('song lsdj_sav_t \<times> lsdj_error option \<times> lsdj_memory_data_t)" where
  "lsdj_read_sav_from_memory decompress read_song data size_arg sav error_given =
     (case data of
        None \<Rightarrow> Inl (Error ''data is NULL'')
      | Some bs \<Rightarrow>
          lsdj_read_sav decompress read_song (Some lsdj_mread) (Some lsdj_mseek)
            \<lparr>mem_begin = bs, mem_cur = 0, mem_size = size_arg\<rparr> sav error_given)"

section \<open>Properties of the byte streams and of the decompression loops\<close>

lemma lsdj_vio_write_Some:
  assumes "lsdj_vio_write v bs = Some v'"
  shows "length (buf v') = length (buf v)" and "pos v' = pos v + length bs"
    and "pos v' \<le> length (buf v')"
  using assms by (auto simp: lsdj_vio_write_def split: if_splits)

lemma lsdj_vio_write_append:
  "lsdj_vio_write v (bs @ cs) = (case lsdj_vio_write v bs of None \<Rightarrow> None | Some v1 \<Rightarrow> lsdj_vio_write v1 cs)"
proof (cases "pos v + length bs \<le> length (buf v)")
  case False
  then show ?thesis by (simp add: lsdj_vio_write_def)
next
  case True
  then have 1: "lsdj_vio_write v bs = Some (v\<lparr>buf := take (pos v) (buf v) @ bs @ drop (pos v + length bs) (buf v),
                    pos := pos v + length bs\<rparr>)"
    by (simp add: lsdj_vio_write_def)
  show ?thesis
  proof (cases "pos v + length bs + length cs \<le> length (buf v)")
    case False
    with True show ?thesis unfolding 1 by (simp add: lsdj_vio_write_def)
  next
    case t: True
    have "take (pos v + length bs) (take (pos v) (buf v) @ bs @ drop (pos v + length bs) (buf v))
        = take (pos v) (buf v) @ bs"
      using True by simp
    moreover have "drop (pos v + length bs + length cs) (take (pos v) (buf v) @ bs @ drop (pos v + length bs) (buf v))
        = drop (pos v + length bs + length cs) (buf v)"
      using True by (simp add: add.commute)
    ultimately show ?thesis
      unfolding 1 using t True by (simp add: lsdj_vio_write_def add.assoc)
  qed
qed

lemma decompress_blocks_unfold:
  "decompress_blocks nnb fbp follow r w =
     (case lsdj_decompress_block nnb r w of
        Inl e \<Rightarrow> Some (Inl e)
      | Inr (r1, w1, nbi) \<Rightarrow> block_done nnb fbp follow r1 w1 nbi)"
  by (subst decompress_blocks.simps) (simp add: block_done_def split: sum.splits prod.splits)

lemma resume_start: "decompress_blocks nnb fbp follow r w = resume nnb fbp follow (pos r) r w"
  by (simp add: decompress_blocks_unfold resume_def lsdj_decompress_block_def lsdj_vio_tell_def
      split: sum.splits prod.splits option.splits)

lemma resume_continue:
  "lsdj_decompress_step nnb r w = Inr (r1, w1, nnb) \<Longrightarrow>
   resume nnb fbp follow start r w = resume nnb fbp follow start r1 w1"
  unfolding resume_def by (subst decompress_block_steps.simps) simp

lemma resume_leave:
  "lsdj_decompress_step nnb r w = Inr (r1, w1, nbi) \<Longrightarrow> nbi \<noteq> nnb \<Longrightarrow>
   resume nnb fbp follow start r w =
     (case lsdj_vio_seek r1 (int start + int LSDJ_BLOCK_SIZE) of
        None \<Rightarrow> Some (Inl (Error ''could not seek to the end of a block''))
      | Some r2 \<Rightarrow> block_done nnb fbp follow r2 w1 nbi)"
  unfolding resume_def by (subst decompress_block_steps.simps) simp

lemma reads_Cons:
  assumes "reads r (b # bs)"
  shows "lsdj_vio_read_byte r = Some (b, r\<lparr>pos := pos r + 1\<rparr>)" and "reads (r\<lparr>pos := pos r + 1\<rparr>) bs"
proof -
  from assms obtain post where d: "drop (pos r) (buf r) = b # bs @ post"
    by (auto simp: reads_def)
  then have lt: "pos r < length (buf r)"
    by (cases "pos r < length (buf r)") auto
  from d lt have "buf r ! pos r = b"
    by (metis hd_drop_conv_nth list.sel(1))
  moreover from d have "drop (Suc (pos r)) (buf r) = bs @ post"
    by (metis drop_Suc list.sel(3) tl_drop)
  ultimately show "lsdj_vio_read_byte r = Some (b, r\<lparr>pos := pos r + 1\<rparr>)"
    and "reads (r\<lparr>pos := pos r + 1\<rparr>) bs"
    using lt by (auto simp: lsdj_vio_read_byte_def reads_def)
qed

lemma reads_append:
  "reads r (bs @ cs) \<longleftrightarrow> reads r bs \<and> reads (r\<lparr>pos := pos r + length bs\<rparr>) cs"
proof
  assume "reads r (bs @ cs)"
  then obtain post where d: "drop (pos r) (buf r) = bs @ cs @ post"
    and le: "pos r \<le> length (buf r)"
    by (auto simp: reads_def)
  then have "drop (length bs) (drop (pos r) (buf r)) = cs @ post"
    by simp
  then have d2: "drop (pos r + length bs) (buf r) = cs @ post"
    by (simp add: add.commute)
  from d have "length (drop (pos r) (buf r)) = length bs + length cs + length post"
    by simp
  with le have "pos r + length bs \<le> length (buf r)"
    by simp
  with d d2 le show "reads r bs \<and> reads (r\<lparr>pos := pos r + length bs\<rparr>) cs"
    by (auto simp: reads_def)
next
  assume "reads r bs \<and> reads (r\<lparr>pos := pos r + length bs\<rparr>) cs"
  then obtain p1 p2 where d1: "drop (pos r) (buf r) = bs @ p1"
    and d2: "drop (pos r + length bs) (buf r) = cs @ p2"
    and le: "pos r \<le> length (buf r)"
    by (auto simp: reads_def)
  from d1 have "drop (length bs) (drop (pos r) (buf r)) = p1"
    by simp
  with d2 have "p1 = cs @ p2"
    by (simp add: add.commute)
  with d1 le show "reads r (bs @ cs)"
    by (auto simp: reads_def)
qed

lemma reads_length: "reads r bs \<Longrightarrow> pos r + length bs \<le> length (buf r)"
proof -
  assume "reads r bs"
  then obtain post where "drop (pos r) (buf r) = bs @ post" and "pos r \<le> length (buf r)"
    by (auto simp: reads_def)
  then have "length (drop (pos r) (buf r)) = length bs + length post" and "pos r \<le> length (buf r)"
    by simp_all
  then show ?thesis by simp
qed

lemma lsdj_vio_write_reads:
  assumes "lsdj_vio_write v bs = Some v'"
  shows "reads (v'\<lparr>pos := pos v\<rparr>) bs"
  using assms by (auto simp: lsdj_vio_write_def reads_def split: if_splits)

lemma step_literal:
  assumes "reads r [c]" and "c \<noteq> RUN_LENGTH_ENCODING_BYTE" and "c \<noteq> SPECIAL_ACTION_BYTE"
  shows "lsdj_decompress_step nnb r w =
     (case lsdj_vio_write w [c] of
        None \<Rightarrow> Inl (Error ''could not write decompression byte'')
      | Some w1 \<Rightarrow> Inr (r\<lparr>pos := pos r + 1\<rparr>, w1, nnb))"
  using assms reads_Cons(1) [OF assms(1)]
  by (simp add: lsdj_decompress_step_def lsdj_vio_write_byte_def split: option.splits)

lemma step_rle_escape:
  assumes "reads r [RUN_LENGTH_ENCODING_BYTE, RUN_LENGTH_ENCODING_BYTE]"
  shows "lsdj_decompress_step nnb r w =
     (case lsdj_vio_write w [RUN_LENGTH_ENCODING_BYTE] of
        None \<Rightarrow> Inl (Error ''could not write RLE byte'')
      | Some w1 \<Rightarrow> Inr (r\<lparr>pos := pos r + 2\<rparr>, w1, nnb))"
  using reads_Cons [OF assms] reads_Cons(1) [OF reads_Cons(2) [OF assms]]
  by (simp add: lsdj_decompress_step_def decompress_rle_byte_def lsdj_vio_write_byte_def
      split: option.splits)

lemma step_rle_run:
  assumes "reads r [RUN_LENGTH_ENCODING_BYTE, c, n]" and "c \<noteq> RUN_LENGTH_ENCODING_BYTE"
  shows "lsdj_decompress_step nnb r w =
     (case lsdj_vio_write w (replicate (unat n) c) of
        None \<Rightarrow> Inl (Error ''could not write byte for RLE expansion'')
      | Some w1 \<Rightarrow> Inr (r\<lparr>pos := pos r + 3\<rparr>, w1, nnb))"
proof -
  note a = reads_Cons [OF assms(1)]
  note b = reads_Cons [OF a(2)]
  note c = reads_Cons [OF b(2)]
  have "concat (replicate k [c]) = replicate k c" for k
    by (induction k) simp_all
  then show ?thesis
    using a(1) b(1) c(1) assms(2)
    by (simp add: lsdj_decompress_step_def decompress_rle_byte_def lsdj_vio_write_repeat_def
        split: option.splits)
qed

lemma step_sa_escape:
  assumes "reads r [SPECIAL_ACTION_BYTE, SPECIAL_ACTION_BYTE]"
  shows "lsdj_decompress_step nnb r w =
     (case lsdj_vio_write w [SPECIAL_ACTION_BYTE] of
        None \<Rightarrow> Inl (Error ''could not write SA byte'')
      | Some w1 \<Rightarrow> Inr (r\<lparr>pos := pos r + 2\<rparr>, w1, nnb))"
  using reads_Cons [OF assms] reads_Cons(1) [OF reads_Cons(2) [OF assms]]
  by (simp add: lsdj_decompress_step_def decompress_sa_byte_def lsdj_vio_write_byte_def
      SPECIAL_ACTION_BYTE_def RUN_LENGTH_ENCODING_BYTE_def split: option.splits)

lemma step_default_wave:
  assumes "reads r [SPECIAL_ACTION_BYTE, LSDJ_DEFAULT_WAVE_BYTE, n]"
  shows "lsdj_decompress_step nnb r w =
     (case lsdj_vio_write w (concat (replicate (unat n) LSDJ_DEFAULT_WAVE)) of
        None \<Rightarrow> Inl (Error ''could not write default wave byte'')
      | Some w1 \<Rightarrow> Inr (r\<lparr>pos := pos r + 3\<rparr>, w1, nnb))"
proof -
  note a = reads_Cons [OF assms(1)]
  note b = reads_Cons [OF a(2)]
  note c = reads_Cons [OF b(2)]
  show ?thesis
    using a(1) b(1) c(1)
    by (simp add: lsdj_decompress_step_def decompress_sa_byte_def decompress_default_wave_byte_def
        lsdj_vio_write_repeat_def SPECIAL_ACTION_BYTE_def RUN_LENGTH_ENCODING_BYTE_def
        LSDJ_DEFAULT_WAVE_BYTE_def split: option.splits)
qed

lemma step_default_instrument:
  assumes "reads r [SPECIAL_ACTION_BYTE, LSDJ_DEFAULT_INSTRUMENT_BYTE, n]"
  shows "lsdj_decompress_step nnb r w =
     (case lsdj_vio_write w (concat (replicate (unat n) LSDJ_DEFAULT_INSTRUMENT)) of
        None \<Rightarrow> Inl (Error ''could not write default instrument byte'')
      | Some w1 \<Rightarrow> Inr (r\<lparr>pos := pos r + 3\<rparr>, w1, nnb))"
proof -
  note a = reads_Cons [OF assms(1)]
  note b = reads_Cons [OF a(2)]
  note c = reads_Cons [OF b(2)]
  show ?thesis
    using a(1) b(1) c(1)
    by (simp add: lsdj_decompress_step_def decompress_sa_byte_def
        decompress_default_instrument_byte_def
        lsdj_vio_write_repeat_def SPECIAL_ACTION_BYTE_def RUN_LENGTH_ENCODING_BYTE_def
        LSDJ_DEFAULT_WAVE_BYTE_def LSDJ_DEFAULT_INSTRUMENT_BYTE_def split: option.splits)
qed

lemma step_block_index:
  assumes "reads r [SPECIAL_ACTION_BYTE, v]" and "v \<noteq> SPECIAL_ACTION_BYTE"
    and "v \<noteq> LSDJ_DEFAULT_WAVE_BYTE" and "v \<noteq> LSDJ_DEFAULT_INSTRUMENT_BYTE"
  shows "lsdj_decompress_step nnb r w = Inr (r\<lparr>pos := pos r + 2\<rparr>, w, unat v)"
  using reads_Cons [OF assms(1)] reads_Cons(1) [OF reads_Cons(2) [OF assms(1)]] assms(2-)
  by (simp add: lsdj_decompress_step_def decompress_sa_byte_def
      SPECIAL_ACTION_BYTE_def RUN_LENGTH_ENCODING_BYTE_def)


lemma block_index_byte:
  assumes "1 \<le> v" and "v \<le> 255"
  shows "unat ((of_nat v :: byte) - 1) = v - 1"
proof -
  from assms obtain k where v: "v = Suc k" by (cases v) auto
  then have "(of_nat v :: byte) - 1 = of_nat k" by simp
  moreover have "unat (of_nat k :: byte) = k"
    using assms v by (simp add: unat_of_nat)
  ultimately show ?thesis using v by simp
qed


lemma decompress_blocks_eof:
  assumes "lsdj_decompress_block nnb r w = Inr (r1, w1, LSDJ_END_OF_FILE_BLOCK_INDEX)"
    and "nnb \<noteq> LSDJ_END_OF_FILE_BLOCK_INDEX"
  shows "decompress_blocks nnb fbp follow r w = Some (Inr (r1, w1))"
  using assms by (simp add: decompress_blocks_unfold block_done_def)

lemma decompress_block_steps_Inr:
  "decompress_block_steps nnb rvio wvio = Inr (r, w, nbi) \<Longrightarrow>
     buf r = buf rvio \<and> pos rvio < pos r \<and> nbi \<noteq> nnb"
proof (induction nnb rvio wvio rule: decompress_block_steps.induct)
  case (1 nnb rvio wvio)
  from "1.prems" obtain r1 w1 n1 where s: "lsdj_decompress_step nnb rvio wvio = Inr (r1, w1, n1)"
    by (subst (asm) decompress_block_steps.simps) (auto split: sum.splits)
  note adv = lsdj_decompress_step_advances [OF s]
  show ?case
  proof (cases "n1 = nnb")
    case True
    with "1.prems" s have "decompress_block_steps nnb r1 w1 = Inr (r, w, nbi)"
      by (subst (asm) decompress_block_steps.simps) simp
    from "1.IH" [OF s refl refl True this] adv show ?thesis by simp
  next
    case False
    with "1.prems" s have "r = r1" "nbi = n1"
      by (subst (asm) decompress_block_steps.simps, simp)+
    with adv False show ?thesis by simp
  qed
qed

lemma lsdj_decompress_block_Inr:
  assumes "lsdj_decompress_block nnb rvio wvio = Inr (r, w, nbi)"
  shows "buf r = buf rvio" and "pos r = pos rvio + LSDJ_BLOCK_SIZE" and "nbi \<noteq> nnb"
proof -
  from assms obtain r1 where s: "decompress_block_steps nnb rvio wvio = Inr (r1, w, nbi)"
    and k: "lsdj_vio_seek r1 (int (pos rvio) + int LSDJ_BLOCK_SIZE) = Some r"
    by (auto simp: lsdj_decompress_block_def lsdj_vio_tell_def Let_def
        split: sum.splits option.splits)
  from decompress_block_steps_Inr [OF s] k
  show "buf r = buf rvio" and "pos r = pos rvio + LSDJ_BLOCK_SIZE" and "nbi \<noteq> nnb"
    by (auto simp: lsdj_vio_seek_def nat_add_distrib split: if_splits)
qed

lemma decompress_blocks_aligned:
  assumes "decompress_blocks nnb fbp follow rvio wvio = Some (Inr (r, w))"
    and "(int (pos rvio) - fbp) mod 512 = 0"
  shows "(int (pos r) - fbp) mod 512 = 0"
proof -
  define P where "P = (\<lambda>(nnb::nat) fbp (follow::bool) (rvio::vio) (wvio::vio)
      (res::lsdj_error + vio \<times> vio).
      (int (pos rvio) - fbp) mod 512 = 0 \<longrightarrow>
      (\<forall>r w. res = Inr (r, w) \<longrightarrow> (int (pos r) - fbp) mod 512 = (0::int)))"
  have "P nnb fbp follow rvio wvio (Inr (r, w))"
  proof (rule decompress_blocks.raw_induct [where P = P, OF _ assms(1)],
      unfold P_def, intro impI allI)
    fix loop nnb fbp follow and rvio wvio :: vio and res :: "lsdj_error + vio \<times> vio"
      and r w :: vio
    assume IH: "\<And>nnb fbp follow (rvio::vio) (wvio::vio) (res::lsdj_error + vio \<times> vio).
      loop nnb fbp follow rvio wvio = Some res \<Longrightarrow>
      (int (pos rvio) - fbp) mod 512 = 0 \<longrightarrow>
      (\<forall>(r::vio) (w::vio). res = Inr (r, w) \<longrightarrow> (int (pos r) - fbp) mod 512 = (0::int))"
      and body: "(case lsdj_decompress_block nnb rvio wvio of
        Inl e \<Rightarrow> Some (Inl e)
      | Inr (r, w, nextBlockIndex) \<Rightarrow>
          if nextBlockIndex = nnb
          then Some (Inl (AssertionFailed ''nextBlockIndex != LSDJ_NO_NEXT_BLOCK_INDEX''))
          else if nextBlockIndex \<noteq> LSDJ_END_OF_FILE_BLOCK_INDEX then
            (if follow then
               (case lsdj_vio_seek r (fbp
                        + int (unat ((of_nat nextBlockIndex :: byte) - 1)) * int LSDJ_BLOCK_SIZE) of
                  None \<Rightarrow> Some (Inl (Error ''could not move to next block''))
                | Some r' \<Rightarrow> loop nnb fbp follow r' w)
             else loop nnb fbp follow r w)
          else Some (Inr (r, w))) = Some res"
      and al: "(int (pos rvio) - fbp) mod 512 = 0" and res: "res = Inr (r, w)"
    from body res obtain r1 w1 nbi where
      b: "lsdj_decompress_block nnb rvio wvio = Inr (r1, w1, nbi)"
      by (auto split: sum.splits)
    note p = lsdj_decompress_block_Inr [OF b]
    have e: "int (pos r1) - fbp = (int (pos rvio) - fbp) + 512"
      using p(2) by (simp add: LSDJ_BLOCK_SIZE_def)
    have al1: "(int (pos r1) - fbp) mod 512 = 0"
      unfolding e using al by (simp only: mod_add_self2)
    show "(int (pos r) - fbp) mod 512 = 0"
    proof (cases "nbi = LSDJ_END_OF_FILE_BLOCK_INDEX")
      case True
      with body res b p(3) al1 show ?thesis by simp
    next
      case nf: False
      show ?thesis
      proof (cases follow)
        case False
        with body b p(3) nf have "loop nnb fbp follow r1 w1 = Some res" by simp
        from IH [OF this] al1 res show ?thesis by simp
      next
        case True
        with body res b p(3) nf obtain r2 where
          k: "lsdj_vio_seek r1 (fbp + int (unat ((of_nat nbi :: byte) - 1)) * int LSDJ_BLOCK_SIZE)
                = Some r2"
          and l: "loop nnb fbp follow r2 w1 = Some res"
          by (auto split: option.splits)
        from k have "int (pos r2) - fbp = int (unat ((of_nat nbi :: byte) - 1)) * 512"
          by (auto simp: lsdj_vio_seek_def LSDJ_BLOCK_SIZE_def split: if_splits)
        then have "(int (pos r2) - fbp) mod 512 = 0" by simp
        with IH [OF l] res show ?thesis by simp
      qed
    qed
  qed
  with assms(2) show ?thesis by (simp add: P_def)
qed



text \<open>
  C4. When the loop of \<^verbatim>\<open>lsdj_decompress\<close> reaches the end-of-stream marker
  (the only way it returns without an error), the call succeeds if exactly
  32,768 bytes were written since its start and fails with the size-mismatch
  error (carrying the size found) otherwise. The input stream starts on a
  block boundary, as the function itself asserts before the size check.
\<close>

theorem C4_decompress_size_check:
  assumes "(lsdj_vio_tell rvio - firstBlockPosition) mod 512 = 0"
    and "decompress_blocks nnb firstBlockPosition followBlockJumps rvio wvio = Some (Inr (r, w))"
  shows "lsdj_decompress nnb rvio wvio firstBlockPosition followBlockJumps =
     Some (if lsdj_vio_tell w - lsdj_vio_tell wvio = 32768 then Inr (r, w)
           else Inl (SizeMismatch (lsdj_vio_tell w - lsdj_vio_tell wvio)))"
proof -
  have "(int (pos r) - firstBlockPosition) mod 512 = 0"
    using decompress_blocks_aligned [OF assms(2)] assms(1)
    by (simp add: lsdj_vio_tell_def)
  then show ?thesis
    using assms(2)
    by (simp add: lsdj_decompress_def lsdj_vio_tell_def Let_def LSDJ_BLOCK_SIZE_def
        LSDJ_SONG_BYTE_COUNT_def)
qed

lemma eos_block:
  "decompress_blocks 0 0 True \<lparr>buf = 0xE0 # 0xFF # replicate 510 0, pos = 0\<rparr> \<lparr>buf = [], pos = 0\<rparr>
     = Some (Inr (\<lparr>buf = 0xE0 # 0xFF # replicate 510 0, pos = 512\<rparr>, \<lparr>buf = [], pos = 0\<rparr>))"
proof -
  have r: "reads \<lparr>buf = 0xE0 # 0xFF # replicate 510 0, pos = 0\<rparr> [SPECIAL_ACTION_BYTE, 0xFF]"
    by (simp add: reads_def SPECIAL_ACTION_BYTE_def)
  have "lsdj_decompress_step 0 \<lparr>buf = 0xE0 # 0xFF # replicate 510 0, pos = 0\<rparr> \<lparr>buf = [], pos = 0\<rparr>
    = Inr (\<lparr>buf = 0xE0 # 0xFF # replicate 510 0, pos = 2\<rparr>, \<lparr>buf = [], pos = 0\<rparr>, 255)"
    using step_block_index [OF r, of 0 "\<lparr>buf = [], pos = 0\<rparr>"]
    by (simp add: SPECIAL_ACTION_BYTE_def LSDJ_DEFAULT_WAVE_BYTE_def
        LSDJ_DEFAULT_INSTRUMENT_BYTE_def)
  then have "lsdj_decompress_block 0 \<lparr>buf = 0xE0 # 0xFF # replicate 510 0, pos = 0\<rparr> \<lparr>buf = [], pos = 0\<rparr>
    = Inr (\<lparr>buf = 0xE0 # 0xFF # replicate 510 0, pos = 512\<rparr>, \<lparr>buf = [], pos = 0\<rparr>, 255)"
    by (simp add: lsdj_decompress_block_def decompress_block_steps.simps
        [of 0 "\<lparr>buf = 0xE0 # 0xFF # replicate 510 0, pos = 0\<rparr>"]
        lsdj_vio_tell_def lsdj_vio_seek_def LSDJ_BLOCK_SIZE_def)
  then show ?thesis
    by (simp add: decompress_blocks_eof LSDJ_END_OF_FILE_BLOCK_INDEX_def)
qed

theorem C4_decompress_size_check_witness:
  "lsdj_decompress 0 \<lparr>buf = 0xE0 # 0xFF # replicate 510 0, pos = 0\<rparr> \<lparr>buf = [], pos = 0\<rparr> 0 True
     = Some (Inl (SizeMismatch 0))"
proof -
  have a: "(lsdj_vio_tell \<lparr>buf = 0xE0 # 0xFF # replicate 510 0, pos = 0\<rparr> - 0) mod 512 = 0"
    by (simp add: lsdj_vio_tell_def)
  show ?thesis
    using C4_decompress_size_check [OF a eos_block] by (simp add: lsdj_vio_tell_def)
qed

section \<open>Properties of the compressor\<close>

lemma count_default_spec:
  "count_default c rd n = (m, rd') \<Longrightarrow> n \<le> 255 \<Longrightarrow>
     rd = concat (replicate (m - n) c) @ rd' \<and> n \<le> m \<and> m \<le> 255"
proof (induction c rd n rule: count_default.induct)
  case (1 c rd count)
  show ?case
  proof (cases "16 < length rd \<and> take 16 rd = c \<and> count \<noteq> 0xFF")
    case True
    with "1.prems" have rec: "count_default c (drop 16 rd) (count + 1) = (m, rd')"
      by (simp add: count_default.simps [of c rd count])
    from True "1.prems"(2) have "count + 1 \<le> 255" by simp
    from "1.IH" [OF True rec this]
    have d: "drop 16 rd = concat (replicate (m - (count + 1)) c) @ rd'" and le: "count + 1 \<le> m"
      and m: "m \<le> 255"
      by simp_all
    have "rd = take 16 rd @ drop 16 rd" by simp
    also have "\<dots> = c @ concat (replicate (m - (count + 1)) c) @ rd'"
      using True d by simp
    also have "\<dots> = concat (replicate (Suc (m - (count + 1))) c) @ rd'"
      by simp
    also have "Suc (m - (count + 1)) = m - count"
      using le by simp
    finally show ?thesis using le m by simp
  next
    case False
    with "1.prems" show ?thesis
      by (simp add: count_default.simps [of c rd count])
  qed
qed

lemma count_run_spec:
  "count_run c rd n = (m, rd') \<Longrightarrow> n \<le> 255 \<Longrightarrow>
     rd = replicate (m - n) c @ rd' \<and> n \<le> m \<and> m \<le> 255"
proof (induction c rd n rule: count_run.induct)
  case (1 c count)
  then show ?case by simp
next
  case (2 c x rd count)
  show ?case
  proof (cases "x = c \<and> count \<noteq> 0xFF")
    case True
    with "2.prems" have rec: "count_run c rd (count + 1) = (m, rd')" by simp
    from True "2.prems"(2) have "count + 1 \<le> 255" by simp
    from "2.IH" [OF True rec this]
    have d: "rd = replicate (m - (count + 1)) c @ rd'" and le: "count + 1 \<le> m" and m: "m \<le> 255"
      by simp_all
    have "x # rd = replicate (Suc (m - (count + 1))) c @ rd'"
      using True d by simp
    also have "Suc (m - (count + 1)) = m - count"
      using le by simp
    finally show ?thesis using le m by simp
  next
    case False
    with "2.prems" show ?thesis by auto
  qed
qed

lemma unat_count_byte: "m \<le> 255 \<Longrightarrow> unat (of_nat m :: byte) = m"
  by (simp add: unat_of_nat)

lemma next_event_decodes:
  assumes "next_event rd = Inr (ev, rd')" and "rd \<noteq> []"
  shows "\<exists>consumed. rd = consumed @ rd' \<and> 1 \<le> length ev \<and> length ev \<le> 3 \<and>
     (\<forall>nnb r w w1. reads r ev \<longrightarrow> lsdj_vio_write w consumed = Some w1 \<longrightarrow>
        lsdj_decompress_step nnb r w = Inr (r\<lparr>pos := pos r + length ev\<rparr>, w1, nnb))"
proof -
  obtain wc rd1 where w: "count_default LSDJ_DEFAULT_WAVE rd 0 = (wc, rd1)"
    by (cases "count_default LSDJ_DEFAULT_WAVE rd 0")
  obtain ic rd2 where i: "count_default LSDJ_DEFAULT_INSTRUMENT rd1 0 = (ic, rd2)"
    by (cases "count_default LSDJ_DEFAULT_INSTRUMENT rd1 0")
  obtain rc rd3 where r: "count_run (hd rd2) rd2 0 = (rc, rd3)"
    by (cases "count_run (hd rd2) rd2 0")
  note sw = count_default_spec [OF w] and si = count_default_spec [OF i]
    and sr = count_run_spec [OF r]
  show ?thesis
  proof (cases "0 < wc")
    case True
    with assms w have ev: "ev = [SPECIAL_ACTION_BYTE, LSDJ_DEFAULT_WAVE_BYTE, of_nat wc]"
      and rd': "rd' = rd1"
      by (simp_all add: next_event_def)
    have "\<forall>nnb r w w1. reads r ev \<longrightarrow>
        lsdj_vio_write w (concat (replicate wc LSDJ_DEFAULT_WAVE)) = Some w1 \<longrightarrow>
        lsdj_decompress_step nnb r w = Inr (r\<lparr>pos := pos r + length ev\<rparr>, w1, nnb)"
      using sw by (auto simp: ev step_default_wave unat_count_byte)
    with sw ev rd' show ?thesis
      by (intro exI [of _ "concat (replicate wc LSDJ_DEFAULT_WAVE)"]) simp
  next
    case wc0: False
    then have rd1: "rd1 = rd" using sw by simp
    show ?thesis
    proof (cases "0 < ic")
      case True
      with assms w i wc0 have ev: "ev = [SPECIAL_ACTION_BYTE, LSDJ_DEFAULT_INSTRUMENT_BYTE, of_nat ic]"
        and rd': "rd' = rd2"
        by (simp_all add: next_event_def)
      have "\<forall>nnb r w w1. reads r ev \<longrightarrow>
          lsdj_vio_write w (concat (replicate ic LSDJ_DEFAULT_INSTRUMENT)) = Some w1 \<longrightarrow>
          lsdj_decompress_step nnb r w = Inr (r\<lparr>pos := pos r + length ev\<rparr>, w1, nnb)"
        using si by (auto simp: ev step_default_instrument unat_count_byte)
      with si ev rd' rd1 show ?thesis
        by (intro exI [of _ "concat (replicate ic LSDJ_DEFAULT_INSTRUMENT)"]) simp
    next
      case ic0: False
      then have rd2: "rd2 = rd" using si rd1 by simp
      from assms(2) obtain c xs where rd: "rd = c # xs" by (cases rd) auto
      have ne: "(let c = hd rd
                  in if c = RUN_LENGTH_ENCODING_BYTE
                     then Inr ([RUN_LENGTH_ENCODING_BYTE, RUN_LENGTH_ENCODING_BYTE], tl rd)
                     else if c = SPECIAL_ACTION_BYTE
                     then Inr ([SPECIAL_ACTION_BYTE, SPECIAL_ACTION_BYTE], tl rd)
                     else if 3 < length rd \<and> rd ! 1 = c \<and> rd ! 2 = c \<and> rd ! 3 = c
                     then
                       (let (count, rd3) = count_run c rd 0
                        in if length rd - length rd3 \<noteq> count
                           then Inl (AssertionFailed ''(read - beg) == count'')
                           else Inr ([RUN_LENGTH_ENCODING_BYTE, c, of_nat count], rd3))
                     else Inr ([c], tl rd)) = Inr (ev, rd')"
        using assms(1) w i wc0 ic0 rd1 rd2 by (simp add: next_event_def)
      show ?thesis
      proof (cases "c = RUN_LENGTH_ENCODING_BYTE")
        case True
        with ne wc0 ic0 rd have ev: "ev = [RUN_LENGTH_ENCODING_BYTE, RUN_LENGTH_ENCODING_BYTE]"
          and rd': "rd' = xs"
          by (simp_all add: Let_def)
        show ?thesis
          using rd rd' True
          by (intro exI [of _ "[c]"]) (auto simp: ev step_rle_escape)
      next
        case nrle: False
        show ?thesis
        proof (cases "c = SPECIAL_ACTION_BYTE")
          case True
          with ne wc0 ic0 rd nrle have ev: "ev = [SPECIAL_ACTION_BYTE, SPECIAL_ACTION_BYTE]"
            and rd': "rd' = xs"
            by (simp_all add: Let_def)
          show ?thesis
            using rd rd' True
            by (intro exI [of _ "[c]"]) (auto simp: ev step_sa_escape)
        next
          case nsa: False
          show ?thesis
          proof (cases "3 < length rd \<and> rd ! 1 = c \<and> rd ! 2 = c \<and> rd ! 3 = c")
            case True
            with ne wc0 ic0 rd nrle nsa r rd2
            have ev: "ev = [RUN_LENGTH_ENCODING_BYTE, c, of_nat rc]" and rd': "rd' = rd3"
              by (auto simp: Let_def split: if_splits)
            have "\<forall>nnb r w w1. reads r ev \<longrightarrow>
                lsdj_vio_write w (replicate rc c) = Some w1 \<longrightarrow>
                lsdj_decompress_step nnb r w = Inr (r\<lparr>pos := pos r + length ev\<rparr>, w1, nnb)"
              using sr nrle by (auto simp: ev step_rle_run unat_count_byte)
            with sr ev rd' rd2 rd show ?thesis
              by (intro exI [of _ "replicate rc c"]) simp
          next
            case False
            with ne wc0 ic0 rd nrle nsa have ev: "ev = [c]" and rd': "rd' = xs"
              by (auto simp: Let_def split: if_splits)
            show ?thesis
              using rd rd' nrle nsa
              by (intro exI [of _ "[c]"]) (auto simp: ev step_literal)
          qed
        qed
      qed
    qed
  qed
qed

lemma lsdj_vio_write_seq:
  "lsdj_vio_write v bs = Some v1 \<Longrightarrow> lsdj_vio_write v1 cs = Some v2 \<Longrightarrow>
     lsdj_vio_write v (bs @ cs) = Some v2"
  by (simp add: lsdj_vio_write_append)

lemma lsdj_vio_write_split:
  "lsdj_vio_write v (bs @ cs) = Some v2 \<Longrightarrow>
     \<exists>v1. lsdj_vio_write v bs = Some v1 \<and> lsdj_vio_write v1 cs = Some v2"
  by (simp add: lsdj_vio_write_append split: option.splits)

lemma lsdj_vio_write_Nil: "pos v \<le> length (buf v) \<Longrightarrow> lsdj_vio_write v [] = Some v"
  by (simp add: lsdj_vio_write_def)

lemma pad_block_spec:
  "pad_block n w = Inr (n', w') \<Longrightarrow> n \<le> LSDJ_BLOCK_SIZE \<Longrightarrow> pos w \<le> length (buf w) \<Longrightarrow>
     n' = LSDJ_BLOCK_SIZE \<and> lsdj_vio_write w (replicate (LSDJ_BLOCK_SIZE - n) 0) = Some w'"
proof (induction n w rule: pad_block.induct)
  case (1 n w)
  show ?case
  proof (cases "n < LSDJ_BLOCK_SIZE")
    case True
    with "1.prems"(1) obtain w1 where w1: "lsdj_vio_write_byte w 0 = Some w1"
      and rec: "pad_block (n + 1) w1 = Inr (n', w')"
      by (subst (asm) pad_block.simps) (auto split: option.splits)
    from True have "n + 1 \<le> LSDJ_BLOCK_SIZE" by simp
    moreover have "pos w1 \<le> length (buf w1)"
      using w1 by (simp add: lsdj_vio_write_byte_def lsdj_vio_write_Some(3))
    ultimately have n': "n' = LSDJ_BLOCK_SIZE"
      and wr: "lsdj_vio_write w1 (replicate (LSDJ_BLOCK_SIZE - (n + 1)) 0) = Some w'"
      using "1.IH" [OF True w1 rec] by simp_all
    from True have "LSDJ_BLOCK_SIZE - n = Suc (LSDJ_BLOCK_SIZE - (n + 1))"
      by simp
    then have "replicate (LSDJ_BLOCK_SIZE - n) (0::byte) = [0] @ replicate (LSDJ_BLOCK_SIZE - (n + 1)) 0"
      by (simp only: replicate_Suc append_Cons append_Nil)
    moreover have "lsdj_vio_write w ([0] @ replicate (LSDJ_BLOCK_SIZE - (n + 1)) 0) = Some w'"
      using w1 wr unfolding lsdj_vio_write_byte_def by (rule lsdj_vio_write_seq)
    ultimately show ?thesis
      using n' by (simp only: simp_thms)
  next
    case False
    with "1.prems" have "n = LSDJ_BLOCK_SIZE" "n' = n" "w' = w"
      by (subst (asm) pad_block.simps, simp)+
    then show ?thesis
      using "1.prems"(3) by (simp add: lsdj_vio_write_Nil)
  qed
qed

lemma compress_emit_spec:
  assumes "compress_emit ev cb cbs ws w = Inr (Emitted cb' cbs' w1)"
    and "cbs + 2 < LSDJ_BLOCK_SIZE" and "cb \<le> LSDJ_BLOCK_COUNT"
  shows "(cbs + length ev + 2 < LSDJ_BLOCK_SIZE \<and> cb' = cb \<and> cbs' = cbs + length ev
          \<and> lsdj_vio_write w ev = Some w1)
       \<or> (LSDJ_BLOCK_SIZE \<le> cbs + length ev + 2 \<and> cb' = cb + 1 \<and> cb' \<le> LSDJ_BLOCK_COUNT
          \<and> cbs' = length ev
          \<and> lsdj_vio_write w (([SPECIAL_ACTION_BYTE, of_nat cb']
                @ replicate (LSDJ_BLOCK_SIZE - (cbs + 2)) 0) @ ev) = Some w1)"
proof (cases "cbs + length ev + 2 < LSDJ_BLOCK_SIZE")
  case True
  with assms(1) show ?thesis
    by (auto simp: compress_emit_def split: option.splits)
next
  case False
  with assms(1,2) obtain wa wb wc n where
    a: "lsdj_vio_write w [SPECIAL_ACTION_BYTE] = Some wa"
    and b: "lsdj_vio_write wa [of_nat (cb + 1)] = Some wb"
    and c: "pad_block (cbs + 2) wb = Inr (n, wc)"
    and ne: "(cb + 1) mod 2 ^ 32 \<noteq> LSDJ_BLOCK_COUNT + 1"
    and d: "lsdj_vio_write wc ev = Some w1"
    and cb': "cb' = (cb + 1) mod 2 ^ 32" and cbs': "cbs' = length ev"
    by (auto simp: compress_emit_def lsdj_vio_write_byte_def Let_def
        split: option.splits sum.splits if_splits)
  have m: "(cb + 1) mod 2 ^ 32 = cb + 1"
    using assms(3) by (simp add: LSDJ_BLOCK_COUNT_def)
  have "pos wb \<le> length (buf wb)"
    using b by (rule lsdj_vio_write_Some(3))
  with pad_block_spec [OF c] assms(2)
  have p: "lsdj_vio_write wb (replicate (LSDJ_BLOCK_SIZE - (cbs + 2)) 0) = Some wc"
    by simp
  have "lsdj_vio_write w ([SPECIAL_ACTION_BYTE] @ [of_nat (cb + 1)]) = Some wb"
    using a b by (rule lsdj_vio_write_seq)
  then have "lsdj_vio_write w (([SPECIAL_ACTION_BYTE] @ [of_nat (cb + 1)])
      @ replicate (LSDJ_BLOCK_SIZE - (cbs + 2)) 0) = Some wc"
    using p by (rule lsdj_vio_write_seq)
  then have "lsdj_vio_write w ((([SPECIAL_ACTION_BYTE] @ [of_nat (cb + 1)])
      @ replicate (LSDJ_BLOCK_SIZE - (cbs + 2)) 0) @ ev) = Some w1"
    using d by (rule lsdj_vio_write_seq)
  then have "lsdj_vio_write w (([SPECIAL_ACTION_BYTE, of_nat (cb + 1)]
      @ replicate (LSDJ_BLOCK_SIZE - (cbs + 2)) 0) @ ev) = Some w1"
    by (simp only: append_Cons append_Nil)
  with False ne m cb' cbs' assms(3) show ?thesis
    by (simp only:) auto
qed

lemma compress_finish_spec:
  assumes "compress_finish cbs w = Inr (ok, wz)" and "0 < cbs" and "cbs + 2 \<le> LSDJ_BLOCK_SIZE"
  shows "ok \<and> lsdj_vio_write w ([SPECIAL_ACTION_BYTE, of_nat LSDJ_END_OF_FILE_BLOCK_INDEX]
           @ replicate (LSDJ_BLOCK_SIZE - (cbs + 2)) 0) = Some wz"
proof -
  from assms(1,2) obtain wa wb n where
    a: "lsdj_vio_write w [SPECIAL_ACTION_BYTE] = Some wa"
    and b: "lsdj_vio_write wa [of_nat LSDJ_END_OF_FILE_BLOCK_INDEX] = Some wb"
    and c: "pad_block (cbs + 2) wb = Inr (n, wz)" and ok: ok
    by (auto simp: compress_finish_def lsdj_vio_write_byte_def
        split: option.splits sum.splits)
  have "pos wb \<le> length (buf wb)"
    using b by (rule lsdj_vio_write_Some(3))
  with pad_block_spec [OF c] assms(3)
  have p: "lsdj_vio_write wb (replicate (LSDJ_BLOCK_SIZE - (cbs + 2)) 0) = Some wz"
    by simp
  have "lsdj_vio_write w ([SPECIAL_ACTION_BYTE] @ [of_nat LSDJ_END_OF_FILE_BLOCK_INDEX]) = Some wb"
    using a b by (rule lsdj_vio_write_seq)
  then have "lsdj_vio_write w (([SPECIAL_ACTION_BYTE] @ [of_nat LSDJ_END_OF_FILE_BLOCK_INDEX])
      @ replicate (LSDJ_BLOCK_SIZE - (cbs + 2)) 0) = Some wz"
    using p by (rule lsdj_vio_write_seq)
  then show ?thesis
    using ok by (simp only: append_Cons append_Nil simp_thms)
qed

lemma compress_from_Nil: "compress_from [] cb cbs ws w = compress_finish cbs w"
  by (simp add: compress_from_def compress_loop.simps)

lemma compress_from_step:
  "rd \<noteq> [] \<Longrightarrow> compress_from rd cb cbs ws w =
     (case next_event rd of
        Inl e \<Rightarrow> Inl e
      | Inr (ev, rd') \<Rightarrow>
          (case compress_emit ev cb cbs ws w of
             Inl e \<Rightarrow> Inl e
           | Inr (RolledBack w1) \<Rightarrow> Inr (False, w1)
           | Inr (Emitted cb' cbs' w1) \<Rightarrow> compress_from rd' cb' cbs' ws w1))"
  by (simp add: compress_from_def compress_loop.simps [of rd]
      split: sum.splits prod.splits emitted.splits)

lemma reads_pos_buf: "buf r' = buf r \<Longrightarrow> pos r' = pos r \<Longrightarrow> reads r' bs = reads r bs"
  by (simp add: reads_def)

lemma jump_byte:
  assumes "1 \<le> v" and "v \<le> LSDJ_BLOCK_COUNT"
  shows "unat (of_nat v :: byte) = v"
    and "(of_nat v :: byte) \<noteq> SPECIAL_ACTION_BYTE"
    and "(of_nat v :: byte) \<noteq> LSDJ_DEFAULT_WAVE_BYTE"
    and "(of_nat v :: byte) \<noteq> LSDJ_DEFAULT_INSTRUMENT_BYTE"
proof -
  show u: "unat (of_nat v :: byte) = v"
    using assms by (simp add: unat_of_nat LSDJ_BLOCK_COUNT_def)
  have "unat SPECIAL_ACTION_BYTE = 224" "unat LSDJ_DEFAULT_WAVE_BYTE = 240"
    "unat LSDJ_DEFAULT_INSTRUMENT_BYTE = 241"
    by (simp_all add: SPECIAL_ACTION_BYTE_def LSDJ_DEFAULT_WAVE_BYTE_def
        LSDJ_DEFAULT_INSTRUMENT_BYTE_def)
  with u assms(2) show "(of_nat v :: byte) \<noteq> SPECIAL_ACTION_BYTE"
    and "(of_nat v :: byte) \<noteq> LSDJ_DEFAULT_WAVE_BYTE"
    and "(of_nat v :: byte) \<noteq> LSDJ_DEFAULT_INSTRUMENT_BYTE"
    by (auto simp: LSDJ_BLOCK_COUNT_def)
qed

lemma resume_event:
  assumes ne: "next_event rd = Inr (ev, rd')" and "rd \<noteq> []"
    and r: "reads r ev" and d: "lsdj_vio_write d rd = Some d'"
  shows "\<exists>d1. lsdj_vio_write d1 rd' = Some d' \<and>
     resume nnb fbp follow start r d = resume nnb fbp follow start (r\<lparr>pos := pos r + length ev\<rparr>) d1"
proof -
  from next_event_decodes [OF ne \<open>rd \<noteq> []\<close>] obtain consumed where
    rd: "rd = consumed @ rd'"
    and dec: "\<And>nnb r w w1. reads r ev \<Longrightarrow> lsdj_vio_write w consumed = Some w1 \<Longrightarrow>
        lsdj_decompress_step nnb r w = Inr (r\<lparr>pos := pos r + length ev\<rparr>, w1, nnb)"
    by blast
  from d rd obtain d1 where d1: "lsdj_vio_write d consumed = Some d1"
    and d2: "lsdj_vio_write d1 rd' = Some d'"
    using lsdj_vio_write_split by blast
  from resume_continue [OF dec [OF r d1]] d2 show ?thesis
    by blast
qed

lemma resume_eof:
  assumes r: "reads r ([SPECIAL_ACTION_BYTE, of_nat LSDJ_END_OF_FILE_BLOCK_INDEX] @ pad)"
    and len: "pos r + (2 + length pad) = start + LSDJ_BLOCK_SIZE"
    and nnb: "nnb \<noteq> LSDJ_END_OF_FILE_BLOCK_INDEX"
  shows "resume nnb fbp follow start r d = Some (Inr (r\<lparr>pos := start + LSDJ_BLOCK_SIZE\<rparr>, d))"
proof -
  from r have r2: "reads r [SPECIAL_ACTION_BYTE, of_nat LSDJ_END_OF_FILE_BLOCK_INDEX]"
    unfolding reads_append by (rule conjunct1)
  have st: "lsdj_decompress_step nnb r d = Inr (r\<lparr>pos := pos r + 2\<rparr>, d, LSDJ_END_OF_FILE_BLOCK_INDEX)"
    using step_block_index [OF r2, of nnb d]
    by (simp add: LSDJ_END_OF_FILE_BLOCK_INDEX_def SPECIAL_ACTION_BYTE_def
        LSDJ_DEFAULT_WAVE_BYTE_def LSDJ_DEFAULT_INSTRUMENT_BYTE_def)
  from reads_length [OF r] len have "start + LSDJ_BLOCK_SIZE \<le> length (buf r)"
    by simp
  then have sk: "lsdj_vio_seek (r\<lparr>pos := pos r + 2\<rparr>) (int start + int LSDJ_BLOCK_SIZE)
      = Some (r\<lparr>pos := start + LSDJ_BLOCK_SIZE\<rparr>)"
    by (simp add: lsdj_vio_seek_def nat_add_distrib)
  show ?thesis
    unfolding resume_leave [OF st nnb [symmetric]] sk using nnb by (simp add: block_done_def)
qed

lemma resume_jump:
  assumes r: "reads r ([SPECIAL_ACTION_BYTE, of_nat (cb + 1)] @ pad @ rest)"
    and len: "pos r + (2 + length pad) = start + LSDJ_BLOCK_SIZE"
    and cb: "cb + 1 \<le> LSDJ_BLOCK_COUNT"
    and st: "int start = fbp + (int cb - 1) * int LSDJ_BLOCK_SIZE"
    and nnb: "nnb \<notin> {1..LSDJ_BLOCK_COUNT}"
  shows "resume nnb fbp follow start r d
      = resume nnb fbp follow (start + LSDJ_BLOCK_SIZE) (r\<lparr>pos := start + LSDJ_BLOCK_SIZE\<rparr>) d"
proof -
  from r have r2: "reads r [SPECIAL_ACTION_BYTE, of_nat (cb + 1)]"
    unfolding reads_append by (rule conjunct1)
  have one: "1 \<le> cb + 1" by simp
  note jb = jump_byte [OF one cb]
  have stp: "lsdj_decompress_step nnb r d = Inr (r\<lparr>pos := pos r + 2\<rparr>, d, cb + 1)"
    using step_block_index [OF r2 jb(2,3,4), of nnb d] jb(1) by simp
  have ne: "cb + 1 \<noteq> nnb"
    using nnb cb by auto
  from reads_length [OF r] len have le: "start + LSDJ_BLOCK_SIZE \<le> length (buf r)"
    by simp
  then have sk: "lsdj_vio_seek (r\<lparr>pos := pos r + 2\<rparr>) (int start + int LSDJ_BLOCK_SIZE)
      = Some (r\<lparr>pos := start + LSDJ_BLOCK_SIZE\<rparr>)"
    by (simp add: lsdj_vio_seek_def nat_add_distrib)
  have "cb + 1 \<le> 255"
    using cb by (simp add: LSDJ_BLOCK_COUNT_def)
  from block_index_byte [OF one this]
  have "int (unat ((of_nat (cb + 1) :: byte) - 1)) = int cb"
    by simp
  then have tgt: "fbp + int (unat ((of_nat (cb + 1) :: byte) - 1)) * int LSDJ_BLOCK_SIZE
      = int start + int LSDJ_BLOCK_SIZE"
    using st by (simp add: algebra_simps)
  have sk2: "lsdj_vio_seek (r\<lparr>pos := start + LSDJ_BLOCK_SIZE\<rparr>) (int start + int LSDJ_BLOCK_SIZE)
      = Some (r\<lparr>pos := start + LSDJ_BLOCK_SIZE\<rparr>)"
    using le by (simp add: lsdj_vio_seek_def nat_add_distrib)
  have eof: "cb + 1 \<noteq> LSDJ_END_OF_FILE_BLOCK_INDEX"
    using cb by (simp add: LSDJ_BLOCK_COUNT_def LSDJ_END_OF_FILE_BLOCK_INDEX_def)
  have "block_done nnb fbp follow (r\<lparr>pos := start + LSDJ_BLOCK_SIZE\<rparr>) d (cb + 1)
      = decompress_blocks nnb fbp follow (r\<lparr>pos := start + LSDJ_BLOCK_SIZE\<rparr>) d"
    unfolding block_done_def tgt using ne eof by (simp add: sk2)
  then show ?thesis
    unfolding resume_leave [OF stp ne] sk by (simp add: resume_start)
qed

lemma compress_from_decodes:
  assumes "compress_from rd cb cbs ws w = Inr (True, wz)"
    and "cbs + 2 < LSDJ_BLOCK_SIZE" and "cb \<le> LSDJ_BLOCK_COUNT" and "rd = [] \<longrightarrow> 0 < cbs"
    and nnb: "nnb \<notin> {1..LSDJ_BLOCK_COUNT}" "nnb \<noteq> LSDJ_END_OF_FILE_BLOCK_INDEX"
  shows "\<exists>out. lsdj_vio_write w out = Some wz \<and> (cbs + length out) mod LSDJ_BLOCK_SIZE = 0 \<and>
     (\<forall>r d d' start. reads r out \<longrightarrow> pos r = start + cbs \<longrightarrow>
        int start = fbp + (int cb - 1) * int LSDJ_BLOCK_SIZE \<longrightarrow>
        lsdj_vio_write d rd = Some d' \<longrightarrow>
        resume nnb fbp follow start r d = Some (Inr (r\<lparr>pos := pos r + length out\<rparr>, d')))"
  using assms(1-4)
proof (induction "length rd" arbitrary: rd cb cbs w rule: less_induct)
  case less
  show ?case
  proof (cases "rd = []")
    case True
    with less.prems have fin: "compress_finish cbs w = Inr (True, wz)" and pos: "0 < cbs"
      by (simp_all add: compress_from_Nil)
    let ?pad = "replicate (LSDJ_BLOCK_SIZE - (cbs + 2)) (0::byte)"
    let ?out = "[SPECIAL_ACTION_BYTE, of_nat LSDJ_END_OF_FILE_BLOCK_INDEX] @ ?pad"
    from compress_finish_spec [OF fin pos] less.prems(2)
    have wr: "lsdj_vio_write w ?out = Some wz" by simp
    have len: "cbs + length ?out = LSDJ_BLOCK_SIZE"
      using less.prems(2) by simp
    have D: "resume nnb fbp follow start r d = Some (Inr (r\<lparr>pos := pos r + length ?out\<rparr>, d'))"
      if r: "reads r ?out" and p: "pos r = start + cbs" and d: "lsdj_vio_write d rd = Some d'"
      for r d d' start
    proof -
      have l2: "pos r + (2 + length ?pad) = start + LSDJ_BLOCK_SIZE"
        using p less.prems(2) by simp
      from d True have "d' = d"
        by (auto simp: lsdj_vio_write_def split: if_splits)
      moreover have "pos r + length ?out = start + LSDJ_BLOCK_SIZE"
        using l2 by simp
      ultimately show ?thesis
        using resume_eof [OF r l2 nnb(2), of fbp follow d] by (simp only:)
    qed
    show ?thesis
    proof (intro exI [of _ ?out] conjI allI impI)
      show "lsdj_vio_write w ?out = Some wz" by (fact wr)
      show "(cbs + length ?out) mod LSDJ_BLOCK_SIZE = 0"
        unfolding len by (rule mod_self)
      fix r d d' start
      assume "reads r ?out" "pos r = start + cbs" "lsdj_vio_write d rd = Some d'"
      then show "resume nnb fbp follow start r d = Some (Inr (r\<lparr>pos := pos r + length ?out\<rparr>, d'))"
        by (rule D)
    qed
  next
    case False
    with less.prems(1) obtain ev rd' cb' cbs' w1 where
      ne: "next_event rd = Inr (ev, rd')"
      and em: "compress_emit ev cb cbs ws w = Inr (Emitted cb' cbs' w1)"
      and rec: "compress_from rd' cb' cbs' ws w1 = Inr (True, wz)"
      by (auto simp: compress_from_step split: sum.splits emitted.splits)
    from next_event_decodes [OF ne False] have evl: "1 \<le> length ev" "length ev \<le> 3"
      by blast+
    note shorter = next_event_shorter [OF ne False]
    from compress_emit_spec [OF em less.prems(2,3)]
    show ?thesis
    proof (elim disjE conjE)
      assume fit: "cbs + length ev + 2 < LSDJ_BLOCK_SIZE" and cb': "cb' = cb"
        and cbs': "cbs' = cbs + length ev" and wr: "lsdj_vio_write w ev = Some w1"
      have "rd' = [] \<longrightarrow> 0 < cbs'" using cbs' evl by auto
      with less.hyps [OF shorter rec] fit cb' cbs' less.prems(3)
      obtain out' where wr': "lsdj_vio_write w1 out' = Some wz"
        and m: "(cbs + length ev + length out') mod LSDJ_BLOCK_SIZE = 0"
        and dec: "\<And>r d d' start. reads r out' \<Longrightarrow> pos r = start + (cbs + length ev) \<Longrightarrow>
          int start = fbp + (int cb - 1) * int LSDJ_BLOCK_SIZE \<Longrightarrow>
          lsdj_vio_write d rd' = Some d' \<Longrightarrow>
          resume nnb fbp follow start r d = Some (Inr (r\<lparr>pos := pos r + length out'\<rparr>, d'))"
        by (auto simp: add.assoc)
      have D: "resume nnb fbp follow start r d = Some (Inr (r\<lparr>pos := pos r + length (ev @ out')\<rparr>, d'))"
        if r: "reads r (ev @ out')" and p: "pos r = start + cbs"
          and st: "int start = fbp + (int cb - 1) * int LSDJ_BLOCK_SIZE"
          and d: "lsdj_vio_write d rd = Some d'"
        for r d d' start
      proof -
        from r have r1: "reads r ev" and r2: "reads (r\<lparr>pos := pos r + length ev\<rparr>) out'"
          unfolding reads_append by simp_all
        from resume_event [OF ne False r1 d, of nnb fbp follow start] obtain d1 where
          d1: "lsdj_vio_write d1 rd' = Some d'"
          and e: "resume nnb fbp follow start r d
            = resume nnb fbp follow start (r\<lparr>pos := pos r + length ev\<rparr>) d1"
          by blast
        have "pos (r\<lparr>pos := pos r + length ev\<rparr>) = start + (cbs + length ev)"
          using p by simp
        from dec [OF r2 this st d1] show ?thesis
          unfolding e by (simp add: add.assoc)
      qed
      show ?thesis
      proof (intro exI [of _ "ev @ out'"] conjI allI impI)
        show "lsdj_vio_write w (ev @ out') = Some wz"
          using wr wr' by (rule lsdj_vio_write_seq)
        show "(cbs + length (ev @ out')) mod LSDJ_BLOCK_SIZE = 0"
          using m by (simp add: add.assoc)
        fix r d d' start
        assume "reads r (ev @ out')" "pos r = start + cbs"
          "int start = fbp + (int cb - 1) * int LSDJ_BLOCK_SIZE" "lsdj_vio_write d rd = Some d'"
        then show "resume nnb fbp follow start r d
            = Some (Inr (r\<lparr>pos := pos r + length (ev @ out')\<rparr>, d'))"
          by (rule D)
      qed
    next
      assume nofit: "LSDJ_BLOCK_SIZE \<le> cbs + length ev + 2" and cb': "cb' = cb + 1"
        and cble: "cb' \<le> LSDJ_BLOCK_COUNT" and cbs': "cbs' = length ev"
        and wr: "lsdj_vio_write w (([SPECIAL_ACTION_BYTE, of_nat cb']
                @ replicate (LSDJ_BLOCK_SIZE - (cbs + 2)) 0) @ ev) = Some w1"
      let ?pad = "replicate (LSDJ_BLOCK_SIZE - (cbs + 2)) (0::byte)"
      let ?hdr = "[SPECIAL_ACTION_BYTE, of_nat (cb + 1) :: byte]"
      have "rd' = [] \<longrightarrow> 0 < cbs'" using cbs' evl by auto
      moreover have "cbs' + 2 < LSDJ_BLOCK_SIZE"
        using cbs' evl by (simp add: LSDJ_BLOCK_SIZE_def)
      ultimately obtain out' where wr': "lsdj_vio_write w1 out' = Some wz"
        and m: "(length ev + length out') mod LSDJ_BLOCK_SIZE = 0"
        and dec: "\<And>r d d' start. reads r out' \<Longrightarrow> pos r = start + length ev \<Longrightarrow>
          int start = fbp + (int (cb + 1) - 1) * int LSDJ_BLOCK_SIZE \<Longrightarrow>
          lsdj_vio_write d rd' = Some d' \<Longrightarrow>
          resume nnb fbp follow start r d = Some (Inr (r\<lparr>pos := pos r + length out'\<rparr>, d'))"
        using less.hyps [OF shorter rec] cb' cbs' cble by auto
      let ?out = "((?hdr @ ?pad) @ ev) @ out'"
      have lpad: "cbs + (2 + length ?pad) = LSDJ_BLOCK_SIZE"
        using less.prems(2) by simp
      have lout: "cbs + length ?out = LSDJ_BLOCK_SIZE + (length ev + length out')"
        using lpad by simp
      have D: "resume nnb fbp follow start r d = Some (Inr (r\<lparr>pos := pos r + length ?out\<rparr>, d'))"
        if r: "reads r ?out" and p: "pos r = start + cbs"
          and st: "int start = fbp + (int cb - 1) * int LSDJ_BLOCK_SIZE"
          and d: "lsdj_vio_write d rd = Some d'"
        for r d d' start
      proof -
        have l2: "pos r + (2 + length ?pad) = start + LSDJ_BLOCK_SIZE"
          using p lpad by simp
        from r have rj: "reads r (?hdr @ ?pad @ (ev @ out'))"
          by (simp only: append_assoc)
        let ?r1 = "r\<lparr>pos := start + LSDJ_BLOCK_SIZE\<rparr>"
        from r have "reads (r\<lparr>pos := pos r + length (?hdr @ ?pad)\<rparr>) (ev @ out')"
          unfolding reads_append append_assoc by simp
        moreover have "pos r + length (?hdr @ ?pad) = start + LSDJ_BLOCK_SIZE"
          using l2 by simp
        ultimately have r1: "reads ?r1 (ev @ out')" by (simp only:)
        then have re: "reads ?r1 ev" and ro: "reads (?r1\<lparr>pos := pos ?r1 + length ev\<rparr>) out'"
          unfolding reads_append by simp_all
        have j: "resume nnb fbp follow start r d
            = resume nnb fbp follow (start + LSDJ_BLOCK_SIZE) ?r1 d"
          using resume_jump [OF rj l2 _ st nnb(1)] cb' cble by simp
        from resume_event [OF ne False re d, of nnb fbp follow "start + LSDJ_BLOCK_SIZE"]
        obtain d1 where d1: "lsdj_vio_write d1 rd' = Some d'"
          and e: "resume nnb fbp follow (start + LSDJ_BLOCK_SIZE) ?r1 d
            = resume nnb fbp follow (start + LSDJ_BLOCK_SIZE) (?r1\<lparr>pos := pos ?r1 + length ev\<rparr>) d1"
          by blast
        have p1: "pos (?r1\<lparr>pos := pos ?r1 + length ev\<rparr>) = (start + LSDJ_BLOCK_SIZE) + length ev"
          by simp
        have st1: "int (start + LSDJ_BLOCK_SIZE) = fbp + (int (cb + 1) - 1) * int LSDJ_BLOCK_SIZE"
          using st by (simp add: algebra_simps)
        have "pos r + length ?out = start + LSDJ_BLOCK_SIZE + length ev + length out'"
          using p lout by simp
        with dec [OF ro p1 st1 d1] show ?thesis
          unfolding j e by simp
      qed
      show ?thesis
      proof (intro exI [of _ ?out] conjI allI impI)
        show "lsdj_vio_write w ?out = Some wz"
          using wr [unfolded cb'] wr' by (rule lsdj_vio_write_seq)
        show "(cbs + length ?out) mod LSDJ_BLOCK_SIZE = 0"
          unfolding lout using m by (simp only: mod_add_self1)
        fix r d d' start
        assume "reads r ?out" "pos r = start + cbs"
          "int start = fbp + (int cb - 1) * int LSDJ_BLOCK_SIZE" "lsdj_vio_write d rd = Some d'"
        then show "resume nnb fbp follow start r d = Some (Inr (r\<lparr>pos := pos r + length ?out\<rparr>, d'))"
          by (rule D)
      qed
    qed
  qed
qed

lemma count_run_full: "count_run c rd 255 = (255, rd)"
  by (cases rd) simp_all

lemma count_run_replicate_cap:
  "k + n = 255 \<Longrightarrow> count_run c (replicate n c @ rest) k = (255, rest)"
proof (induction n arbitrary: k)
  case 0
  then show ?case by (simp add: count_run_full)
next
  case (Suc n)
  then have "k \<noteq> 255" "Suc k + n = 255" by simp_all
  with Suc.IH [of "Suc k"] show ?case by simp
qed

lemma count_run_replicate_all:
  "k + n \<le> 255 \<Longrightarrow> count_run c (replicate n c) k = (k + n, [])"
proof (induction n arbitrary: k)
  case 0
  then show ?case by simp
next
  case (Suc n)
  then have "k \<noteq> 255" "Suc k + n \<le> 255" by simp_all
  with Suc.IH [of "Suc k"] show ?case by simp
qed

lemma count_default_none:
  "take 16 rd \<noteq> c \<Longrightarrow> count_default c rd 0 = (0, rd)"
  by (simp add: count_default.simps [of c rd 0])

lemma count_default_short:
  "length rd \<le> 16 \<Longrightarrow> count_default c rd 0 = (0, rd)"
  by (simp add: count_default.simps [of c rd 0])

lemma take16_zero:
  assumes "rd = 0 # xs"
  shows "take 16 rd \<noteq> LSDJ_DEFAULT_WAVE" and "take 16 rd \<noteq> LSDJ_DEFAULT_INSTRUMENT"
  using assms by (simp_all add: LSDJ_DEFAULT_WAVE_def LSDJ_DEFAULT_INSTRUMENT_def take_Cons')

lemma next_event_zero_run:
  "next_event (replicate 255 0 @ rest) = Inr ([RUN_LENGTH_ENCODING_BYTE, 0, 0xFF], rest)"
proof -
  let ?rd = "replicate 255 (0::byte) @ rest"
  have rd: "?rd = 0 # replicate 254 0 @ rest"
    by (simp flip: replicate_Suc)
  have four: "3 < length ?rd" "?rd ! 1 = 0" "?rd ! 2 = 0" "?rd ! 3 = 0" "hd ?rd = 0"
    by (simp_all add: nth_append)
  have cr: "count_run 0 ?rd 0 = (255, rest)"
    by (rule count_run_replicate_cap) simp
  have "length ?rd - length rest = 255" by simp
  then show ?thesis
    unfolding next_event_def
    using four cr
    by (simp add: count_default_none [OF take16_zero(1) [OF rd]]
        count_default_none [OF take16_zero(2) [OF rd]]
        RUN_LENGTH_ENCODING_BYTE_def SPECIAL_ACTION_BYTE_def Let_def)
qed

lemma next_event_zero_tail:
  assumes "4 \<le> n" and "n \<le> 255"
  shows "next_event (replicate n 0) = Inr ([RUN_LENGTH_ENCODING_BYTE, 0, of_nat n], [])"
proof -
  let ?rd = "replicate n (0::byte)"
  from assms obtain m where n: "n = Suc m" by (cases n) auto
  have rd: "?rd = 0 # replicate m 0"
    using n by simp
  have four: "3 < length ?rd" "?rd ! 1 = 0" "?rd ! 2 = 0" "?rd ! 3 = 0" "hd ?rd = 0"
    using assms n by simp_all
  have cr: "count_run 0 ?rd 0 = (n, [])"
    using count_run_replicate_all [of 0 n 0] assms by simp
  show ?thesis
    unfolding next_event_def
    using four cr
    by (simp add: count_default_none [OF take16_zero(1) [OF rd]]
        count_default_none [OF take16_zero(2) [OF rd]]
        RUN_LENGTH_ENCODING_BYTE_def SPECIAL_ACTION_BYTE_def Let_def)
qed

lemma compress_from_event:
  assumes "next_event rd = Inr (ev, rd')" and "rd \<noteq> []"
    and "cbs + length ev + 2 < LSDJ_BLOCK_SIZE" and "lsdj_vio_write w ev = Some w'"
  shows "compress_from rd cb cbs ws w = compress_from rd' cb (cbs + length ev) ws w'"
  using assms by (simp add: compress_from_step compress_emit_def)

lemma pad_block_writes:
  "lsdj_vio_write w (replicate (LSDJ_BLOCK_SIZE - n) 0) = Some w' \<Longrightarrow> n \<le> LSDJ_BLOCK_SIZE \<Longrightarrow>
     pad_block n w = Inr (LSDJ_BLOCK_SIZE, w')"
proof (induction n w rule: pad_block.induct)
  case (1 n w)
  show ?case
  proof (cases "n < LSDJ_BLOCK_SIZE")
    case True
    then have "LSDJ_BLOCK_SIZE - n = Suc (LSDJ_BLOCK_SIZE - (n + 1))" by simp
    then have "replicate (LSDJ_BLOCK_SIZE - n) (0::byte) = [0] @ replicate (LSDJ_BLOCK_SIZE - (n + 1)) 0"
      by (simp only: replicate_Suc append_Cons append_Nil)
    with "1.prems"(1) obtain w1 where w1: "lsdj_vio_write w [0] = Some w1"
      and w2: "lsdj_vio_write w1 (replicate (LSDJ_BLOCK_SIZE - (n + 1)) 0) = Some w'"
      using lsdj_vio_write_split by metis
    from True have "n + 1 \<le> LSDJ_BLOCK_SIZE" by simp
    from "1.IH" [OF True _ w2 this] w1 have "pad_block (n + 1) w1 = Inr (LSDJ_BLOCK_SIZE, w')"
      by (simp add: lsdj_vio_write_byte_def)
    with True w1 show ?thesis
      by (subst pad_block.simps) (simp add: lsdj_vio_write_byte_def)
  next
    case False
    with "1.prems" have n: "n = LSDJ_BLOCK_SIZE" by simp
    with "1.prems"(1) have "w' = w"
      by (auto simp: lsdj_vio_write_def split: if_splits)
    with n show ?thesis
      by (subst pad_block.simps) simp
  qed
qed

lemma compress_from_finish:
  assumes "0 < cbs" and "cbs + 2 \<le> LSDJ_BLOCK_SIZE"
    and "lsdj_vio_write w ([SPECIAL_ACTION_BYTE, 0xFF] @ replicate (LSDJ_BLOCK_SIZE - (cbs + 2)) 0) = Some w'"
  shows "compress_from [] cb cbs ws w = Inr (True, w')"
proof -
  have "[SPECIAL_ACTION_BYTE, 0xFF] @ replicate (LSDJ_BLOCK_SIZE - (cbs + 2)) (0::byte)
      = [SPECIAL_ACTION_BYTE] @ [0xFF] @ replicate (LSDJ_BLOCK_SIZE - (cbs + 2)) 0"
    by simp
  with assms(3) obtain w1 w2 where a: "lsdj_vio_write w [SPECIAL_ACTION_BYTE] = Some w1"
    and b: "lsdj_vio_write w1 [0xFF] = Some w2"
    and c: "lsdj_vio_write w2 (replicate (LSDJ_BLOCK_SIZE - (cbs + 2)) 0) = Some w'"
    using lsdj_vio_write_split by metis
  from pad_block_writes [OF c assms(2)] a b assms(1) show ?thesis
    by (simp add: compress_from_Nil compress_finish_def lsdj_vio_write_byte_def
        LSDJ_END_OF_FILE_BLOCK_INDEX_def)
qed

lemma compress_from_zero_runs:
  "lsdj_vio_write w (concat (replicate k [RUN_LENGTH_ENCODING_BYTE, 0, 0xFF])) = Some w' \<Longrightarrow>
   cbs + 3 * k + 2 < LSDJ_BLOCK_SIZE \<Longrightarrow>
   compress_from (replicate (255 * k) 0 @ rest) cb cbs ws w = compress_from rest cb (cbs + 3 * k) ws w'"
proof (induction k arbitrary: w cbs)
  case 0
  then have "w' = w" by (auto simp: lsdj_vio_write_def split: if_splits)
  then show ?case by simp
next
  case (Suc k)
  let ?ev = "[RUN_LENGTH_ENCODING_BYTE, 0, 0xFF :: byte]"
  have "concat (replicate (Suc k) ?ev) = ?ev @ concat (replicate k ?ev)" by simp
  with Suc.prems(1) obtain w1 where w1: "lsdj_vio_write w ?ev = Some w1"
    and w2: "lsdj_vio_write w1 (concat (replicate k ?ev)) = Some w'"
    using lsdj_vio_write_split by metis
  have rd: "replicate (255 * Suc k) (0::byte) @ rest = replicate 255 0 @ (replicate (255 * k) 0 @ rest)"
    by (simp add: replicate_add [symmetric] del: replicate_Suc)
  have ne: "next_event (replicate (255 * Suc k) 0 @ rest)
      = Inr (?ev, replicate (255 * k) 0 @ rest)"
    unfolding rd by (rule next_event_zero_run)
  have nonempty: "replicate (255 * Suc k) (0::byte) @ rest \<noteq> []" by simp
  have fit: "cbs + length ?ev + 2 < LSDJ_BLOCK_SIZE"
    using Suc.prems(2) by simp
  have "cbs + length ?ev + 3 * k + 2 < LSDJ_BLOCK_SIZE"
    using Suc.prems(2) by simp
  from Suc.IH [OF w2 this]
  have step: "compress_from (replicate (255 * k) 0 @ rest) cb (cbs + length ?ev) ws w1
      = compress_from rest cb (cbs + length ?ev + 3 * k) ws w'" .
  have eq: "cbs + length ?ev + 3 * k = cbs + 3 * Suc k" by simp
  show ?case
    unfolding compress_from_event [OF ne nonempty fit w1] step eq ..
qed

lemma length_concat_replicate: "length (concat (replicate k xs)) = k * length xs"
  by (induction k) simp_all

lemma compress_zero_song:
  "lsdj_compress (replicate 32768 0) \<lparr>buf = replicate 512 0, pos = 0\<rparr> 1 =
     Inr (True, \<lparr>buf = concat (replicate 128 [0xC0, 0, 0xFF]) @ [0xC0, 0, 0x80] @ [0xE0, 0xFF]
                        @ replicate 123 0, pos = 512\<rparr>)"
proof -
  define w0 :: vio where "w0 = \<lparr>buf = replicate 512 0, pos = 0\<rparr>"
  define z :: "byte list" where "z = concat (replicate 128 [RUN_LENGTH_ENCODING_BYTE, 0, 0xFF])"
  define t :: "byte list" where "t = [RUN_LENGTH_ENCODING_BYTE, 0, 0x80]"
  define f :: "byte list" where
    "f = [SPECIAL_ACTION_BYTE, 0xFF] @ replicate (LSDJ_BLOCK_SIZE - (387 + 2)) 0"
  define wz :: vio where "wz = \<lparr>buf = z @ t @ f, pos = 512\<rparr>"
  have len: "length z = 384" "length t = 3" "length f = 125"
    by (simp_all add: z_def t_def f_def length_concat_replicate LSDJ_BLOCK_SIZE_def)
  have total: "lsdj_vio_write w0 (z @ t @ f) = Some wz"
    by (simp add: lsdj_vio_write_def w0_def wz_def len)
  from lsdj_vio_write_split [OF total] obtain w1 where w1: "lsdj_vio_write w0 z = Some w1"
    and r1: "lsdj_vio_write w1 (t @ f) = Some wz"
    by blast
  from lsdj_vio_write_split [OF r1] obtain w2 where w2: "lsdj_vio_write w1 t = Some w2"
    and w3: "lsdj_vio_write w2 f = Some wz"
    by blast
  have rd: "replicate 32768 (0::byte) = replicate (255 * 128) 0 @ replicate 128 0"
    by (simp add: replicate_add [symmetric])
  have "384 + 2 < LSDJ_BLOCK_SIZE" "0 + 3 * 128 + 2 < LSDJ_BLOCK_SIZE"
    "384 + length t + 2 < LSDJ_BLOCK_SIZE" "387 + 2 \<le> LSDJ_BLOCK_SIZE"
    by (simp_all add: LSDJ_BLOCK_SIZE_def len)
  note fits = this
  have a: "compress_from (replicate 32768 0) 1 0 0 w0
      = compress_from (replicate 128 0) 1 (0 + 3 * 128) 0 w1"
    unfolding rd by (rule compress_from_zero_runs [OF w1 [unfolded z_def] fits(2)])
  have ne: "next_event (replicate 128 0) = Inr (t, [])"
    using next_event_zero_tail [of 128] by (simp add: t_def)
  have nonempty: "replicate 128 (0::byte) \<noteq> []" by simp
  have b: "compress_from (replicate 128 0) 1 384 0 w1 = compress_from [] 1 (384 + length t) 0 w2"
    by (rule compress_from_event [OF ne nonempty fits(3) w2])
  have c: "compress_from [] 1 387 0 w2 = Inr (True, wz)"
    by (rule compress_from_finish [OF _ fits(4) w3 [unfolded f_def]]) simp
  have "lsdj_compress (replicate 32768 0) w0 1 = compress_from (replicate 32768 0) 1 0 0 w0"
    by (simp add: lsdj_compress_def LSDJ_BLOCK_COUNT_def LSDJ_SONG_BYTE_COUNT_def
        lsdj_vio_tell_def w0_def)
  also have "\<dots> = compress_from (replicate 128 0) 1 384 0 w1"
    using a by simp
  also have "\<dots> = compress_from [] 1 387 0 w2"
    using b by (simp add: len)
  also note c
  finally show ?thesis
    by (simp add: w0_def wz_def z_def t_def f_def RUN_LENGTH_ENCODING_BYTE_def
        SPECIAL_ACTION_BYTE_def LSDJ_BLOCK_SIZE_def)
qed

lemma count_run_replicate_stop:
  "k + n \<le> 255 \<Longrightarrow> x \<noteq> c \<Longrightarrow> count_run c (replicate n c @ x # xs) k = (k + n, x # xs)"
proof (induction n arbitrary: k)
  case 0
  then show ?case by simp
next
  case (Suc n)
  then have "k \<noteq> 255" "Suc k + n \<le> 255" by simp_all
  with Suc.IH [of "Suc k"] Suc.prems(2) show ?case by simp
qed

lemma next_event_zero_stop:
  assumes "4 \<le> n" and "n \<le> 255" and "x \<noteq> 0"
  shows "next_event (replicate n 0 @ x # xs) = Inr ([RUN_LENGTH_ENCODING_BYTE, 0, of_nat n], x # xs)"
proof -
  let ?rd = "replicate n (0::byte) @ x # xs"
  from assms obtain m where n: "n = Suc m" by (cases n) auto
  have rd: "?rd = 0 # replicate m 0 @ x # xs"
    using n by simp
  have four: "3 < length ?rd" "?rd ! 1 = 0" "?rd ! 2 = 0" "?rd ! 3 = 0" "hd ?rd = 0"
    using assms n by (simp_all add: nth_append)
  have cr: "count_run 0 ?rd 0 = (n, x # xs)"
    using count_run_replicate_stop [of 0 n x 0 xs] assms by simp
  show ?thesis
    unfolding next_event_def
    using four cr
    by (simp add: count_default_none [OF take16_zero(1) [OF rd]]
        count_default_none [OF take16_zero(2) [OF rd]]
        RUN_LENGTH_ENCODING_BYTE_def SPECIAL_ACTION_BYTE_def Let_def)
qed

lemma next_event_literal:
  assumes "length (c # xs) \<le> 16" and "c \<noteq> RUN_LENGTH_ENCODING_BYTE" and "c \<noteq> SPECIAL_ACTION_BYTE"
    and "xs \<noteq> [] \<Longrightarrow> hd xs \<noteq> c"
  shows "next_event (c # xs) = Inr ([c], xs)"
proof -
  have "(c # xs) ! 1 = c \<Longrightarrow> False" if "3 < length (c # xs)"
    using that assms(4) by (cases xs) auto
  then show ?thesis
    unfolding next_event_def
    using assms(2,3)
    by (auto simp: count_default_short [OF assms(1)] Let_def)
qed

lemma compress_from_literals:
  "length lits \<le> 16 \<Longrightarrow> distinct_adj lits \<Longrightarrow>
   RUN_LENGTH_ENCODING_BYTE \<notin> set lits \<Longrightarrow> SPECIAL_ACTION_BYTE \<notin> set lits \<Longrightarrow>
   cbs + length lits + 2 < LSDJ_BLOCK_SIZE \<Longrightarrow> lsdj_vio_write w lits = Some w' \<Longrightarrow>
   compress_from lits cb cbs ws w = compress_from [] cb (cbs + length lits) ws w'"
proof (induction lits arbitrary: cbs w)
  case Nil
  from Nil.prems(6) have "w' = w" by (auto simp: lsdj_vio_write_def split: if_splits)
  then show ?case by simp
next
  case (Cons c xs)
  from Cons.prems(6) have "lsdj_vio_write w ([c] @ xs) = Some w'" by simp
  from lsdj_vio_write_split [OF this] obtain w1 where w1: "lsdj_vio_write w [c] = Some w1"
    and w2: "lsdj_vio_write w1 xs = Some w'"
    by blast
  have ne: "next_event (c # xs) = Inr ([c], xs)"
  proof (rule next_event_literal)
    show "length (c # xs) \<le> 16" by (rule Cons.prems(1))
    show "c \<noteq> RUN_LENGTH_ENCODING_BYTE" "c \<noteq> SPECIAL_ACTION_BYTE"
      using Cons.prems(3,4) by auto
    show "hd xs \<noteq> c" if "xs \<noteq> []"
      using that Cons.prems(2) by (cases xs) auto
  qed
  have fit: "cbs + length [c] + 2 < LSDJ_BLOCK_SIZE"
    using Cons.prems(5) by simp
  have step: "compress_from (c # xs) cb cbs ws w = compress_from xs cb (cbs + length [c]) ws w1"
    by (rule compress_from_event [OF ne _ fit w1]) simp
  have "compress_from xs cb (cbs + length [c]) ws w1
      = compress_from [] cb (cbs + length [c] + length xs) ws w'"
  proof (rule Cons.IH [OF _ _ _ _ _ w2])
    show "length xs \<le> 16" using Cons.prems(1) by simp
    show "distinct_adj xs" using Cons.prems(2) by (cases xs) auto
    show "RUN_LENGTH_ENCODING_BYTE \<notin> set xs" "SPECIAL_ACTION_BYTE \<notin> set xs"
      using Cons.prems(3,4) by auto
    show "cbs + length [c] + length xs + 2 < LSDJ_BLOCK_SIZE"
      using Cons.prems(5) by simp
  qed
  moreover have "cbs + length [c] + length xs = cbs + length (c # xs)" by simp
  ultimately show ?case
    using step by simp
qed

lemma default_wave_plain:
  "length LSDJ_DEFAULT_WAVE = 16" "distinct_adj LSDJ_DEFAULT_WAVE"
  "RUN_LENGTH_ENCODING_BYTE \<notin> set LSDJ_DEFAULT_WAVE" "SPECIAL_ACTION_BYTE \<notin> set LSDJ_DEFAULT_WAVE"
  "hd LSDJ_DEFAULT_WAVE \<noteq> 0"
  by (simp_all add: LSDJ_DEFAULT_WAVE_def RUN_LENGTH_ENCODING_BYTE_def SPECIAL_ACTION_BYTE_def)

lemma next_event_default_wave_inner:
  "next_event (LSDJ_DEFAULT_WAVE @ [0]) = Inr ([SPECIAL_ACTION_BYTE, LSDJ_DEFAULT_WAVE_BYTE, 1], [0])"
proof -
  have 1: "count_default LSDJ_DEFAULT_WAVE (LSDJ_DEFAULT_WAVE @ [0]) 0 = (1, [0])"
    by (simp add: count_default.simps [of _ "_ @ _" 0] count_default.simps [of _ "[0]"]
        default_wave_plain(1))
  show ?thesis
    by (simp add: next_event_def 1)
qed

text \<open>
  C1. Compressing a 32 KiB buffer \<open>b\<close> and decompressing what was written gives
  \<open>b\<close> back. The compressor starts at block \<open>blockOffset\<close> (one of the 191
  blocks) at the position of \<open>wvio\<close> and succeeds, leaving \<open>wvio'\<close>. The
  decompressor reads the bytes of \<open>wvio'\<close> from that same position, with the
  block numbering the two functions share: the jump byte \<open>n\<close> that the
  compressor writes for block \<open>n\<close> sends the decompressor to
  \<open>firstBlockPosition + (n - 1) * 512\<close>, so that is where block \<open>n\<close> lies. The
  output stream has room for 32,768 bytes. Then \<^verbatim>\<open>lsdj_decompress\<close> returns
  successfully, the output holds exactly the bytes of \<open>b\<close> from its old
  position on, and the input stream stands at the end of the last block.
\<close>

theorem C1_compress_decompress_roundtrip:
  assumes len: "length b = LSDJ_SONG_BYTE_COUNT"
    and blk: "blockOffset \<le> LSDJ_BLOCK_COUNT"
    and cmp: "lsdj_compress b wvio blockOffset = Inr (True, wvio')"
    and rbuf: "buf rvio = buf wvio'" and rpos: "pos rvio = pos wvio"
    and fbp: "int (pos wvio) = firstBlockPosition + (int blockOffset - 1) * int LSDJ_BLOCK_SIZE"
    and room: "pos out + LSDJ_SONG_BYTE_COUNT \<le> length (buf out)"
    and nnb: "nnb \<notin> {1..LSDJ_BLOCK_COUNT}" "nnb \<noteq> LSDJ_END_OF_FILE_BLOCK_INDEX"
  shows "lsdj_decompress nnb rvio out firstBlockPosition followBlockJumps =
     Some (Inr (rvio\<lparr>pos := pos wvio'\<rparr>,
                out\<lparr>buf := take (pos out) (buf out) @ b @ drop (pos out + length b) (buf out),
                    pos := pos out + length b\<rparr>))"
proof -
  let ?d' = "out\<lparr>buf := take (pos out) (buf out) @ b @ drop (pos out + length b) (buf out),
                    pos := pos out + length b\<rparr>"
  from cmp blk len have cf: "compress_from b blockOffset 0 (int (pos wvio)) wvio = Inr (True, wvio')"
    by (simp add: lsdj_compress_def Let_def lsdj_vio_tell_def split: if_splits)
  have ne: "b = [] \<longrightarrow> (0::nat) < 0"
    using len by (auto simp: LSDJ_SONG_BYTE_COUNT_def)
  have "0 + 2 < LSDJ_BLOCK_SIZE" by (simp add: LSDJ_BLOCK_SIZE_def)
  note main = compress_from_decodes [OF cf this blk ne nnb, of firstBlockPosition followBlockJumps]
  define Q where "Q = (\<lambda>outb. \<forall>r d d' start. reads r outb \<longrightarrow> pos r = start + 0 \<longrightarrow>
        int start = firstBlockPosition + (int blockOffset - 1) * int LSDJ_BLOCK_SIZE \<longrightarrow>
        lsdj_vio_write d b = Some d' \<longrightarrow>
        resume nnb firstBlockPosition followBlockJumps start r d
          = Some (Inr (r\<lparr>pos := pos r + length outb\<rparr>, d')))"
  have "\<exists>outb. lsdj_vio_write wvio outb = Some wvio'
      \<and> (0 + length outb) mod LSDJ_BLOCK_SIZE = 0 \<and> Q outb"
    unfolding Q_def by (rule main)
  then obtain outb where wr: "lsdj_vio_write wvio outb = Some wvio'"
    and m0: "(0 + length outb) mod LSDJ_BLOCK_SIZE = 0" and q: "Q outb"
    apply (elim exE conjE)
    apply (rule that)
      apply assumption+
    done
  from m0 have m: "length outb mod LSDJ_BLOCK_SIZE = 0" by simp
  from q have dec: "\<And>r d d' start. reads r outb \<Longrightarrow> pos r = start + 0 \<Longrightarrow>
        int start = firstBlockPosition + (int blockOffset - 1) * int LSDJ_BLOCK_SIZE \<Longrightarrow>
        lsdj_vio_write d b = Some d' \<Longrightarrow>
        resume nnb firstBlockPosition followBlockJumps start r d
          = Some (Inr (r\<lparr>pos := pos r + length outb\<rparr>, d'))"
    unfolding Q_def by blast
  have "reads (wvio'\<lparr>pos := pos wvio\<rparr>) outb"
    using wr by (rule lsdj_vio_write_reads)
  then have r: "reads rvio outb"
    using rbuf rpos by (simp add: reads_def)
  have d: "lsdj_vio_write out b = Some ?d'"
    using room len by (simp add: lsdj_vio_write_def)
  have p: "pos rvio = pos wvio + 0" using rpos by simp
  have pw: "pos wvio' = pos wvio + length outb"
    using wr by (rule lsdj_vio_write_Some(2))
  have blocks: "decompress_blocks nnb firstBlockPosition followBlockJumps rvio out
      = Some (Inr (rvio\<lparr>pos := pos wvio'\<rparr>, ?d'))"
    using dec [OF r p fbp d] rpos pw by (simp add: resume_start)
  from m have "LSDJ_BLOCK_SIZE dvd length outb"
    by (simp only: mod_eq_0_iff_dvd)
  then obtain k where k: "length outb = LSDJ_BLOCK_SIZE * k"
    by (rule dvdE)
  have "int (pos wvio') - firstBlockPosition
      = (int blockOffset - 1 + int k) * int LSDJ_BLOCK_SIZE"
    using pw fbp k by (simp add: algebra_simps)
  then have al: "(int (pos wvio') - firstBlockPosition) mod int LSDJ_BLOCK_SIZE = 0"
    by simp
  show ?thesis
    using al len by (simp add: lsdj_decompress_def blocks lsdj_vio_tell_def Let_def)
qed

theorem C1_compress_decompress_roundtrip_witness:
  "lsdj_compress (replicate 32768 0) \<lparr>buf = replicate 512 0, pos = 0\<rparr> 1 =
     Inr (True, \<lparr>buf = concat (replicate 128 [0xC0, 0, 0xFF]) @ [0xC0, 0, 0x80] @ [0xE0, 0xFF]
                        @ replicate 123 0, pos = 512\<rparr>)
   \<and> lsdj_decompress 0
       \<lparr>buf = concat (replicate 128 [0xC0, 0, 0xFF]) @ [0xC0, 0, 0x80] @ [0xE0, 0xFF]
                 @ replicate 123 0, pos = 0\<rparr>
       \<lparr>buf = replicate 32768 1, pos = 0\<rparr> 0 True =
     Some (Inr (\<lparr>buf = concat (replicate 128 [0xC0, 0, 0xFF]) @ [0xC0, 0, 0x80] @ [0xE0, 0xFF]
                          @ replicate 123 0, pos = 512\<rparr>,
                \<lparr>buf = replicate 32768 0, pos = 32768\<rparr>))"
  using C1_compress_decompress_roundtrip [OF _ _ compress_zero_song,
      of "\<lparr>buf = concat (replicate 128 [0xC0, 0, 0xFF]) @ [0xC0, 0, 0x80] @ [0xE0, 0xFF]
                 @ replicate 123 0, pos = 0\<rparr>" 0 "\<lparr>buf = replicate 32768 1, pos = 0\<rparr>" 0 True]
    compress_zero_song
  by (simp add: LSDJ_SONG_BYTE_COUNT_def LSDJ_BLOCK_COUNT_def LSDJ_BLOCK_SIZE_def
      LSDJ_END_OF_FILE_BLOCK_INDEX_def)

text \<open>
  C8. The compressor is to emit a default-wave event for every 16-byte window
  that equals the default wave, also when the window is the last 16 bytes of
  the input. The loop tests \<^verbatim>\<open>read + LSDJ_DEFAULT_WAVE_LENGTH < end\<close>, which is
  false for the last window (a window followed by one more byte is detected,
  lemma \<open>next_event_default_wave_inner\<close>). On the 32 KiB input of 32,752 zero
  bytes followed by the default wave, \<^verbatim>\<open>lsdj_compress\<close> succeeds and writes the
  zero runs, then the sixteen bytes of the wave as literals, then the
  end-of-stream marker: no \<^verbatim>\<open>E0 F0\<close> event is written.
\<close>

theorem C8_final_default_wave_not_detected:
  "lsdj_compress (replicate 32752 0 @ LSDJ_DEFAULT_WAVE) \<lparr>buf = replicate 512 0, pos = 0\<rparr> 1 =
     Inr (True, \<lparr>buf = concat (replicate 128 [0xC0, 0, 0xFF]) @ [0xC0, 0, 0x70]
                        @ LSDJ_DEFAULT_WAVE @ [0xE0, 0xFF] @ replicate 107 0, pos = 512\<rparr>)"
proof -
  define w0 :: vio where "w0 = \<lparr>buf = replicate 512 0, pos = 0\<rparr>"
  define z :: "byte list" where "z = concat (replicate 128 [RUN_LENGTH_ENCODING_BYTE, 0, 0xFF])"
  define t :: "byte list" where "t = [RUN_LENGTH_ENCODING_BYTE, 0, 0x70]"
  define f :: "byte list" where
    "f = [SPECIAL_ACTION_BYTE, 0xFF] @ replicate (LSDJ_BLOCK_SIZE - (403 + 2)) 0"
  define wz :: vio where "wz = \<lparr>buf = z @ t @ LSDJ_DEFAULT_WAVE @ f, pos = 512\<rparr>"
  note wave = default_wave_plain
  have len: "length z = 384" "length t = 3" "length f = 109"
    by (simp_all add: z_def t_def f_def length_concat_replicate LSDJ_BLOCK_SIZE_def)
  have total: "lsdj_vio_write w0 (z @ t @ LSDJ_DEFAULT_WAVE @ f) = Some wz"
    by (simp add: lsdj_vio_write_def w0_def wz_def len wave(1))
  from lsdj_vio_write_split [OF total] obtain w1 where w1: "lsdj_vio_write w0 z = Some w1"
    and r1: "lsdj_vio_write w1 (t @ LSDJ_DEFAULT_WAVE @ f) = Some wz"
    by blast
  from lsdj_vio_write_split [OF r1] obtain w2 where w2: "lsdj_vio_write w1 t = Some w2"
    and r2: "lsdj_vio_write w2 (LSDJ_DEFAULT_WAVE @ f) = Some wz"
    by blast
  from lsdj_vio_write_split [OF r2] obtain w3 where w3: "lsdj_vio_write w2 LSDJ_DEFAULT_WAVE = Some w3"
    and w4: "lsdj_vio_write w3 f = Some wz"
    by blast
  define x where "x = hd LSDJ_DEFAULT_WAVE"
  define xs where "xs = tl LSDJ_DEFAULT_WAVE"
  have wv: "LSDJ_DEFAULT_WAVE = x # xs" and x: "x \<noteq> 0"
    by (simp_all add: x_def xs_def LSDJ_DEFAULT_WAVE_def)
  have rd: "replicate 32752 (0::byte) @ LSDJ_DEFAULT_WAVE
      = replicate (255 * 128) 0 @ (replicate 112 0 @ LSDJ_DEFAULT_WAVE)"
    by (simp add: replicate_add [symmetric])
  have "0 + 3 * 128 + 2 < LSDJ_BLOCK_SIZE" "384 + length t + 2 < LSDJ_BLOCK_SIZE"
    "387 + length LSDJ_DEFAULT_WAVE + 2 < LSDJ_BLOCK_SIZE" "403 + 2 \<le> LSDJ_BLOCK_SIZE"
    by (simp_all add: LSDJ_BLOCK_SIZE_def len wave(1))
  note fits = this
  have a: "compress_from (replicate 32752 0 @ LSDJ_DEFAULT_WAVE) 1 0 0 w0
      = compress_from (replicate 112 0 @ LSDJ_DEFAULT_WAVE) 1 (0 + 3 * 128) 0 w1"
    unfolding rd by (rule compress_from_zero_runs [OF w1 [unfolded z_def] fits(1)])
  have ne: "next_event (replicate 112 0 @ LSDJ_DEFAULT_WAVE) = Inr (t, LSDJ_DEFAULT_WAVE)"
    unfolding wv using next_event_zero_stop [of 112 x xs] x by (simp add: t_def)
  have nonempty: "replicate 112 (0::byte) @ LSDJ_DEFAULT_WAVE \<noteq> []" by simp
  have b: "compress_from (replicate 112 0 @ LSDJ_DEFAULT_WAVE) 1 384 0 w1
      = compress_from LSDJ_DEFAULT_WAVE 1 (384 + length t) 0 w2"
    by (rule compress_from_event [OF ne nonempty fits(2) w2])
  have c: "compress_from LSDJ_DEFAULT_WAVE 1 387 0 w2
      = compress_from [] 1 (387 + length LSDJ_DEFAULT_WAVE) 0 w3"
    by (rule compress_from_literals [OF _ wave(2,3,4) fits(3) w3]) (simp add: wave(1))
  have d: "compress_from [] 1 403 0 w3 = Inr (True, wz)"
    by (rule compress_from_finish [OF _ fits(4) w4 [unfolded f_def]]) simp
  have "lsdj_compress (replicate 32752 0 @ LSDJ_DEFAULT_WAVE) w0 1
      = compress_from (replicate 32752 0 @ LSDJ_DEFAULT_WAVE) 1 0 0 w0"
    by (simp add: lsdj_compress_def LSDJ_BLOCK_COUNT_def LSDJ_SONG_BYTE_COUNT_def
        lsdj_vio_tell_def w0_def wave(1))
  also have "\<dots> = compress_from (replicate 112 0 @ LSDJ_DEFAULT_WAVE) 1 384 0 w1"
    using a by simp
  also have "\<dots> = compress_from LSDJ_DEFAULT_WAVE 1 387 0 w2"
    using b by (simp add: len)
  also have "\<dots> = compress_from [] 1 403 0 w3"
    using c by (simp add: wave(1))
  also note d
  finally show ?thesis
    by (simp add: w0_def wz_def z_def t_def f_def RUN_LENGTH_ENCODING_BYTE_def
        SPECIAL_ACTION_BYTE_def LSDJ_BLOCK_SIZE_def)
qed

lemma header_init_bytes:
  "length bytes = sizeof_header_t \<Longrightarrow>
     hdr_init (header_of bytes) ! 0 = bytes ! 318 \<and> hdr_init (header_of bytes) ! 1 = bytes ! 319"
  by (simp add: header_of_def sizeof_header_t_def SAV_PROJECT_COUNT_def)

lemma scan_blocks_error:
  "scan_blocks decompress read_song error_given tbl blocks is projects err = Inl e \<Longrightarrow>
     e = OutOfBounds ''projects[project]''"
proof (induction "is" arbitrary: projects err)
  case Nil
  then show ?case by simp
next
  case (Cons i "is")
  let ?p = "unat (tbl ! i)"
  show ?case
  proof (cases "length projects \<le> ?p")
    case True
    with Cons.prems show ?thesis by simp
  next
    case inside: False
    show ?thesis
    proof (cases "proj_song (projects ! ?p) \<noteq> None")
      case True
      with inside Cons.prems
      have "scan_blocks decompress read_song error_given tbl blocks is projects err = Inl e"
        by simp
      then show ?thesis by (rule Cons.IH)
    next
      case nosong: False
      obtain song e' where rs: "read_song (decompress blocks i BLOCK_SIZE) = (song, e')"
        by (cases "read_song (decompress blocks i BLOCK_SIZE)")
      show ?thesis
      proof (cases error_given)
        case True
        with inside nosong rs Cons.prems show ?thesis by (simp add: Let_def)
      next
        case False
        with inside nosong rs Cons.prems
        have "scan_blocks decompress read_song error_given tbl blocks is
            (projects[?p := (projects ! ?p)\<lparr>proj_song := Some song\<rparr>]) err = Inl e"
          by (simp add: Let_def)
        then show ?thesis by (rule Cons.IH)
      qed
    qed
  qed
qed


lemma read_compressed_blocks_error:
  assumes "read_compressed_blocks decompress read_song error_given read u projects err = Inl e"
  shows "e = OutOfBounds ''blocks_alloc_table'' \<or> e = OutOfBounds ''projects[project]''"
proof -
  obtain tbl u1 where t: "read BLOCK_COUNT u = (tbl, u1)"
    by (cases "read BLOCK_COUNT u")
  obtain blocks u2 where b: "read (BLOCK_COUNT * BLOCK_SIZE) u1 = (blocks, u2)"
    by (cases "read (BLOCK_COUNT * BLOCK_SIZE) u1")
  show ?thesis
  proof (cases "length tbl \<noteq> BLOCK_COUNT")
    case True
    with assms t b show ?thesis by (simp add: read_compressed_blocks_def)
  next
    case False
    show ?thesis
    proof (cases "scan_blocks decompress read_song error_given tbl blocks [0..<BLOCK_COUNT] projects err")
      case (Inl e')
      with assms t b False have "e' = e" by (simp add: read_compressed_blocks_def)
      with scan_blocks_error [OF Inl] show ?thesis by simp
    next
      case (Inr r)
      with assms t b False show ?thesis
        by (simp add: read_compressed_blocks_def split: prod.splits)
    qed
  qed
qed

lemma read_sav_projects_error:
  assumes "read_sav_projects decompress read_song read seek u header sav error_given = Inl e"
  shows "\<exists>m. e = OutOfBounds m"
proof (cases "length (sav_projects sav) \<noteq> SAV_PROJECT_COUNT")
  case True
  with assms show ?thesis by (auto simp: read_sav_projects_def)
next
  case False
  define ps where "ps = map (\<lambda>i. (sav_projects sav ! i)
                             \<lparr>proj_name := take 8 (drop (i * 8) (hdr_project_names header)),
                              proj_version := hdr_versions header ! i\<rparr>)
                        [0..<SAV_PROJECT_COUNT]"
  show ?thesis
  proof (cases "read_compressed_blocks decompress read_song error_given read u ps None")
    case (Inl e')
    with assms False have "e' = e"
      by (simp add: read_sav_projects_def Let_def ps_def)
    with read_compressed_blocks_error [OF Inl] show ?thesis by auto
  next
    case (Inr r)
    with assms False show ?thesis
      by (simp add: read_sav_projects_def Let_def ps_def split: prod.splits if_splits)
  qed
qed


text \<open>
  C5. \<^verbatim>\<open>lsdj_read_sav\<close> seeks to the header and reads its 321 bytes; the
  initialization characters are bytes 318 and 319 of them. When they are not
  \<^verbatim>\<open>j\<close> (0x6A) then \<^verbatim>\<open>k\<close> (0x6B), the function fails with the error of the
  initialization check, whatever the decompressor and the song reader are: it
  returns before it uses either. When they are, the function goes on with
  the project slots, the compressed blocks and the working song
  (\<open>read_sav_projects\<close>), and whatever happens there it does not report the
  initialization check.
\<close>

theorem C5_read_sav_init_check:
  assumes "fst (read sizeof_header_t (seek (int HEADER_START) SEEK_SET user_data)) = bytes"
    and "length bytes = sizeof_header_t"
  shows "(bytes ! 318 \<noteq> 0x6A \<or> bytes ! 319 \<noteq> 0x6B \<longrightarrow>
            lsdj_read_sav decompress read_song (Some read) (Some seek) user_data (Some sav) error_given
              = Inl (Error init_check_message))
       \<and> (bytes ! 318 = 0x6A \<and> bytes ! 319 = 0x6B \<longrightarrow>
            lsdj_read_sav decompress read_song (Some read) (Some seek) user_data (Some sav) error_given
              = read_sav_projects decompress read_song read seek
                  (snd (read sizeof_header_t (seek (int HEADER_START) SEEK_SET user_data)))
                  (header_of bytes) sav error_given
          \<and> lsdj_read_sav decompress read_song (Some read) (Some seek) user_data (Some sav) error_given
              \<noteq> Inl (Error init_check_message))"
proof -
  let ?run = "lsdj_read_sav decompress read_song (Some read) (Some seek) user_data (Some sav) error_given"
  obtain u2 where rd: "read sizeof_header_t (seek (int HEADER_START) SEEK_SET user_data) = (bytes, u2)"
    using assms(1) by (cases "read sizeof_header_t (seek (int HEADER_START) SEEK_SET user_data)") simp
  note ini = header_init_bytes [OF assms(2)]
  have bad: "?run = Inl (Error init_check_message)"
    if "bytes ! 318 \<noteq> 0x6A \<or> bytes ! 319 \<noteq> 0x6B"
    using that ini assms(2) by (simp add: lsdj_read_sav_def rd)
  have good: "?run = read_sav_projects decompress read_song read seek u2 (header_of bytes) sav error_given"
    if "bytes ! 318 = 0x6A \<and> bytes ! 319 = 0x6B"
    using that ini assms(2) by (simp add: lsdj_read_sav_def rd)
  have ne: "read_sav_projects decompress read_song read seek u2 (header_of bytes) sav error_given
      \<noteq> Inl (Error init_check_message)"
    using read_sav_projects_error [of decompress read_song read seek u2 "header_of bytes" sav
        error_given "Error init_check_message"]
    by auto
  show ?thesis
  proof (intro conjI impI)
    assume "bytes ! 318 \<noteq> 0x6A \<or> bytes ! 319 \<noteq> 0x6B"
    then show "?run = Inl (Error init_check_message)" by (rule bad)
  next
    assume g: "bytes ! 318 = 0x6A \<and> bytes ! 319 = 0x6B"
    show "?run = read_sav_projects decompress read_song read seek
           (snd (read sizeof_header_t (seek (int HEADER_START) SEEK_SET user_data)))
           (header_of bytes) sav error_given"
      unfolding good [OF g] rd by simp
    show "?run \<noteq> Inl (Error init_check_message)"
      unfolding good [OF g] by (rule ne)
  qed
qed


theorem C5_read_sav_init_check_witness:
  "lsdj_read_sav (\<lambda>blocks i n. []) (\<lambda>data. (data, None)) (Some lsdj_mread) (Some lsdj_mseek)
       \<lparr>mem_begin = replicate 0x8000 0 @ replicate 318 0 @ [0x58, 0x6B, 0], mem_cur = 0,
        mem_size = 33089\<rparr>
       (Some \<lparr>sav_song = [], sav_projects = [], sav_active_project = 0\<rparr>) True
     = Inl (Error init_check_message)
   \<and> lsdj_read_sav (\<lambda>blocks i n. []) (\<lambda>data. (data, None)) (Some lsdj_mread) (Some lsdj_mseek)
       \<lparr>mem_begin = replicate 0x8000 0 @ replicate 318 0 @ [0x6A, 0x6B, 0], mem_cur = 0,
        mem_size = 33089\<rparr>
       (Some \<lparr>sav_song = [], sav_projects = [], sav_active_project = 0\<rparr>) True
     \<noteq> Inl (Error init_check_message)"
proof -
  have rd: "fst (lsdj_mread sizeof_header_t (lsdj_mseek (int HEADER_START) SEEK_SET
        \<lparr>mem_begin = replicate 0x8000 0 @ replicate 318 0 @ [a, b, c], mem_cur = 0,
         mem_size = 33089\<rparr>)) = replicate 318 0 @ [a, b, c]" for a b c :: byte
    by (simp add: lsdj_mread_def lsdj_mseek_def HEADER_START_def SONG_DECOMPRESSED_SIZE_def
        sizeof_header_t_def SAV_PROJECT_COUNT_def)
  have len: "length (replicate 318 (0::byte) @ [a, b, c]) = sizeof_header_t" for a b c :: byte
    by (simp add: sizeof_header_t_def SAV_PROJECT_COUNT_def)
  have at: "(replicate 318 (0::byte) @ [a, b, c]) ! 318 = a" "(replicate 318 (0::byte) @ [a, b, c]) ! 319 = b"
    for a b c :: byte
    by (simp_all add: nth_append)
  note bad = C5_read_sav_init_check [where read = lsdj_mread and seek = lsdj_mseek
      and user_data = "\<lparr>mem_begin = replicate 0x8000 0 @ replicate 318 0 @ [0x58, 0x6B, 0],
             mem_cur = 0, mem_size = 33089\<rparr>"
      and bytes = "replicate 318 0 @ [0x58, 0x6B, 0]"
      and decompress = "\<lambda>blocks i n. []" and read_song = "\<lambda>data. (data, None)"
      and sav = "\<lparr>sav_song = [], sav_projects = [], sav_active_project = 0\<rparr>"
      and error_given = True, OF rd len]
  note good = C5_read_sav_init_check [where read = lsdj_mread and seek = lsdj_mseek
      and user_data = "\<lparr>mem_begin = replicate 0x8000 0 @ replicate 318 0 @ [0x6A, 0x6B, 0],
             mem_cur = 0, mem_size = 33089\<rparr>"
      and bytes = "replicate 318 0 @ [0x6A, 0x6B, 0]"
      and decompress = "\<lambda>blocks i n. []" and read_song = "\<lambda>data. (data, None)"
      and sav = "\<lparr>sav_song = [], sav_projects = [], sav_active_project = 0\<rparr>"
      and error_given = True, OF rd len]
  have p: "(0x6A::byte) = 0x6A \<and> (0x6B::byte) = 0x6B"
    by simp
  have q: "(0x58::byte) \<noteq> 0x6A \<or> (0x6B::byte) \<noteq> 0x6B"
    by simp
  from bad [unfolded at, THEN conjunct1, THEN mp, OF q]
    good [unfolded at, THEN conjunct2, THEN mp, OF p, THEN conjunct2]
  show ?thesis
    by (rule conjI)
qed

section \<open>Properties of the table command accessors\<close>

lemma table_index_bound: "unat (t::byte) * 16 + unat (s::byte) < 4352"
proof -
  have "unat t < 256" "unat s < 256"
    using unsigned_less [of t, where 'a = nat] unsigned_less [of s, where 'a = nat] by simp_all
  then show ?thesis by arith
qed

lemma set_command1_keeps_version:
  assumes "length song = LSDJ_SONG_BUFFER_BYTES_COUNT"
    and "lsdj_table_set_command1 cmdB song t s c = Inr (ok, song')"
  shows "lsdj_song_get_format_version song' = lsdj_song_get_format_version song"
    and "length song' = length song"
  using assms table_index_bound [of t s]
  by (auto simp: lsdj_table_set_command1_def lsdj_song_get_format_version_def Let_def
      LSDJ_TABLE_LENGTH_def COMMAND1_OFFSET_def CONTENT_LENGTH_def
      LSDJ_SONG_BUFFER_BYTES_COUNT_def split: if_splits)

lemma get_command1_ignores_set_command1:
  assumes "length song = LSDJ_SONG_BUFFER_BYTES_COUNT"
    and "8 \<le> lsdj_song_get_format_version song"
    and "lsdj_table_set_command1 cmdB song t s c = Inr (ok, song')"
  shows "lsdj_table_get_command1 cmdB song' t s = lsdj_table_get_command1 cmdB song t s"
proof -
  have v: "lsdj_song_get_format_version song' = lsdj_song_get_format_version song"
    using set_command1_keeps_version(1) [OF assms(1,3)] .
  have upd: "song' = song[COMMAND1_OFFSET + (unat t * LSDJ_TABLE_LENGTH + unat s) :=
      (if c = cmdB then (1::byte) else if c > 1 then of_nat c + 1 else of_nat c)]"
    using assms(2,3) by (auto simp: lsdj_table_set_command1_def Let_def split: if_splits)
  have "song' ! (COMMAND2_OFFSET + (unat t * LSDJ_TABLE_LENGTH + unat s))
      = song ! (COMMAND2_OFFSET + (unat t * LSDJ_TABLE_LENGTH + unat s))"
    unfolding upd by (simp add: COMMAND1_OFFSET_def COMMAND2_OFFSET_def)
  then show ?thesis
    using assms(2) v by (simp add: lsdj_table_get_command1_def Let_def)
qed

text \<open>
  C10. The claim: for format version at least 8, after a successful
  \<^verbatim>\<open>lsdj_table_set_command1(song, table, step, c)\<close> the getter
  \<^verbatim>\<open>lsdj_table_get_command1(song, table, step)\<close> returns \<open>c\<close>.
  The code does not do this: the setter stores at \<^verbatim>\<open>COMMAND1_OFFSET\<close>, the
  version-8 branch of the getter loads from \<^verbatim>\<open>COMMAND2_OFFSET\<close>. On the zeroed
  version-8 buffer, setting command 2 at table 0, step 0 succeeds and stores
  byte 3 at \<^verbatim>\<open>0x3680\<close>, yet the getter still answers 0, whatever the ordinal of
  \<^verbatim>\<open>LSDJ_COMMAND_B\<close> is.
\<close>

theorem C10_set_get_command1_mismatch:
  "lsdj_song_get_format_version v8_song = 8
   \<and> lsdj_table_set_command1 cmdB v8_song 0 0 2
       = Inr (True, v8_song[COMMAND1_OFFSET := if cmdB = 2 then 1 else 3])
   \<and> lsdj_table_get_command1 cmdB (v8_song[COMMAND1_OFFSET := if cmdB = 2 then 1 else 3]) 0 0
       = Inr 0"
  by (simp add: lsdj_table_set_command1_def lsdj_table_get_command1_def
      lsdj_song_get_format_version_def v8_song_def Let_def nth_append
      LSDJ_TABLE_LENGTH_def COMMAND1_OFFSET_def COMMAND2_OFFSET_def CONTENT_LENGTH_def)

end
